theory Spec2Isabelle
  imports Complex_Main "HOL-Library.Multiset" "HOL-Library.Stream" "HOL-Library.Signed_Division"
begin

section \<open>Genetic algorithm for polynomial fitting: the CPU and the MPI driver\<close>

text \<open>
  The development embeds the single-process program (fitness, crossover, mutation,
  selection, the generation loop of main) and the result aggregation of the MPI driver
  (findMinimum and its main).

  Conventions of the embedding.
  \<^item> The value of a C \<open>float\<close> or \<open>double\<close> is the real number it stands for. Every
    arithmetic operation and conversion rounds its exact result to the nearest number of
    its type, ties going to the even significand: \<open>to_float\<close> for the binary32 format of
    \<open>float\<close>, \<open>to_double\<close> for the binary64 format of \<open>double\<close> (the arithmetic of g++
    on x86-64, where no operation keeps excess precision). An operation with a
    \<open>double\<close> operand is done in \<open>double\<close>; \<open>pow\<close> of a \<open>float\<close> and an \<open>int\<close> is a
    \<open>double\<close>, as C++11 has it; and \<open>pow\<close>, \<open>log\<close> and \<open>sqrt\<close> are taken to return the
    correctly rounded value. Overflow to an infinity and NaN are not modelled: the
    rounding has no largest exponent, and the property of the fitness values is stated
    for the evaluations in which no operation overflows (\<open>fitness_finite\<close>). The one
    infinity the program uses as a value (the start value of \<open>bestFitness\<close> and
    \<open>previousBestFitness\<close>) is \<open>None\<close> of a \<open>real option\<close>.
  \<^item> A \<open>float *\<close> buffer is a store \<open>nat \<Rightarrow> real\<close> from element index to value. The
    program allocates its population buffers with \<open>POPULATION_SIZE * INDIVIDUAL_LEN *
    sizeof(float)\<close> elements and initialises the first \<open>POPULATION_SIZE * INDIVIDUAL_LEN\<close>
    only; a read past the initialised part returns whatever the store holds there.
  \<^item> The header \<open>config.h\<close> is not part of the sources at hand: its macros are the fields
    of the record \<open>config\<close>, together with the C library's \<open>RAND_MAX\<close>.
  \<^item> The C library generators \<open>random()\<close> and \<open>rand()\<close> are two streams of natural
    numbers, consumed from the front.
  \<^item> \<open>std::sort\<close> is a parameter \<open>srt\<close> of selection. The general properties ask of it
    the contract of the C++ standard only (a permutation, ordered by the comparator);
    \<open>std_sort\<close> is the algorithm of the GNU C++ library, which the makefile links.
\<close>

subsection \<open>Configuration and random sources\<close>

record config =
  POPULATION_SIZE :: nat
  INDIVIDUAL_LEN :: nat
  N_POINTS :: nat
  mu_individuals :: real
  sigma_individuals :: real
  mu_genes :: real
  sigma_genes :: real
  maxGenerationNumber :: nat
  maxConstIter :: nat
  targetErr :: real
  RAND_MAX :: nat

type_synonym buffer = "nat \<Rightarrow> real"

record rng =
  random_src :: "nat stream"
  rand_src :: "nat stream"

datatype fault = DivisionByZero

text \<open>One call of \<open>random()\<close> and one call of \<open>rand()\<close>.\<close>

definition random_call :: "rng \<Rightarrow> nat \<times> rng" where
  "random_call g = (shd (random_src g), g\<lparr>random_src := stl (random_src g)\<rparr>)"

definition rand_call :: "rng \<Rightarrow> nat \<times> rng" where
  "rand_call g = (shd (rand_src g), g\<lparr>rand_src := stl (rand_src g)\<rparr>)"

subsection \<open>Floating-point rounding\<close>

text \<open>
  Rounding to the nearest integer, ties to the even one; and rounding of a real number to
  \<open>p\<close> significant binary digits, where the exponent of the leading digit is not taken
  below \<open>emin\<close> (below it the spacing stays that of the subnormal numbers). The type
  \<open>float\<close> has 24 digits and least exponent -126, the type \<open>double\<close> 53 and -1022.
\<close>

definition round_half_even :: "real \<Rightarrow> int" where
  "round_half_even y =
     (let f = \<lfloor>y\<rfloor>; r = y - of_int f
      in if r < 1 / 2 then f else if 1 / 2 < r then f + 1 else if even f then f else f + 1)"

definition round_to :: "nat \<Rightarrow> int \<Rightarrow> real \<Rightarrow> real" where
  "round_to p emin x =
     (if x = 0 then 0
      else let e = max \<lfloor>log 2 \<bar>x\<bar>\<rfloor> emin;
               ulp = 2 powr real_of_int (e - int p + 1)
           in ulp * of_int (round_half_even (x / ulp)))"

definition to_float :: "real \<Rightarrow> real" where
  "to_float = round_to 24 (- 126)"

definition to_double :: "real \<Rightarrow> real" where
  "to_double = round_to 53 (- 1022)"

subsection \<open>fitness\<close>

text \<open>
  The three nested loops of \<open>fitness\<close>, each with its body as a step function: over the
  orders of one polynomial, over the points, over the individuals. \<open>points\<close> holds the
  abscissae at \<open>0 .. N_POINTS - 1\<close> and the ordinates at \<open>N_POINTS .. 2 * N_POINTS - 1\<close>.
  \<open>pow\<close> returns a \<open>double\<close>, so the product and the sum of line 71 and the sum of line
  74 are done in \<open>double\<close> and the result is converted to the \<open>float\<close> it is stored in;
  the difference of line 74 is a \<open>float\<close> operation.
\<close>

definition order_step :: "config \<Rightarrow> buffer \<Rightarrow> buffer \<Rightarrow> nat \<Rightarrow> nat \<Rightarrow> nat \<Rightarrow> real \<Rightarrow> real" where
  "order_step cfg individuals points i pt order f_approx =
     to_float (to_double (f_approx
       + to_double (individuals (i * INDIVIDUAL_LEN cfg + order)
                    * to_double (points pt ^ order))))"

definition order_loop :: "config \<Rightarrow> buffer \<Rightarrow> buffer \<Rightarrow> nat \<Rightarrow> nat \<Rightarrow> real" where
  "order_loop cfg individuals points i pt =
     fold (order_step cfg individuals points i pt) [0..<INDIVIDUAL_LEN cfg] 0"

definition point_step :: "config \<Rightarrow> buffer \<Rightarrow> buffer \<Rightarrow> nat \<Rightarrow> nat \<Rightarrow> real \<Rightarrow> real" where
  "point_step cfg individuals points i pt sumError =
     to_float (to_double (sumError
       + to_double ((to_float (order_loop cfg individuals points i pt
                               - points (N_POINTS cfg + pt)))\<^sup>2)))"

definition point_loop :: "config \<Rightarrow> buffer \<Rightarrow> buffer \<Rightarrow> nat \<Rightarrow> real" where
  "point_loop cfg individuals points i =
     fold (point_step cfg individuals points i) [0..<N_POINTS cfg] 0"

definition fitness :: "config \<Rightarrow> buffer \<Rightarrow> buffer \<Rightarrow> buffer \<Rightarrow> buffer" where
  "fitness cfg individuals points current_fitnesses =
     fold (\<lambda>i cf. cf(i := point_loop cfg individuals points i))
          [0..<POPULATION_SIZE cfg] current_fitnesses"





subsection \<open>crossover\<close>

text \<open>The first loop of \<open>crossover\<close>: the leading half of the old buffer is copied.\<close>

definition copy_fittest :: "config \<Rightarrow> buffer \<Rightarrow> buffer \<Rightarrow> buffer" where
  "copy_fittest cfg oldPopulation newPopulation =
     fold (\<lambda>i np. np(i := oldPopulation i))
          [0..<POPULATION_SIZE cfg div 2 * INDIVIDUAL_LEN cfg] newPopulation"

text \<open>
  The loop over \<open>j\<close> that writes one pair of children at offset \<open>i\<close>. The offsets
  \<open>parent1_i\<close> and \<open>parent2_i\<close> are multiplied by \<open>INDIVIDUAL_LEN\<close> here, as in the
  source.
\<close>

definition write_children ::
  "config \<Rightarrow> buffer \<Rightarrow> nat \<Rightarrow> nat \<Rightarrow> nat \<Rightarrow> int \<Rightarrow> buffer \<Rightarrow> buffer" where
  "write_children cfg oldPopulation i parent1_i parent2_i crosspoint newPopulation =
     fold (\<lambda>j np.
             if int j < crosspoint
             then np(i + j := oldPopulation (parent1_i * INDIVIDUAL_LEN cfg + j),
                     i + j + INDIVIDUAL_LEN cfg := oldPopulation (parent2_i * INDIVIDUAL_LEN cfg + j))
             else np(i + j := oldPopulation (parent2_i * INDIVIDUAL_LEN cfg + j),
                     i + j + INDIVIDUAL_LEN cfg := oldPopulation (parent1_i * INDIVIDUAL_LEN cfg + j)))
          [0..<INDIVIDUAL_LEN cfg] newPopulation"

text \<open>
  The three draws of one pair: the two parent offsets and the crosspoint. A modulus of
  zero is the fault \<open>DivisionByZero\<close>; \<open>smod\<close> is the remainder of C (truncated division).
\<close>

definition draw_parents :: "config \<Rightarrow> rng \<Rightarrow> fault + ((nat \<times> nat \<times> int) \<times> rng)" where
  "draw_parents cfg g =
     (if POPULATION_SIZE cfg div 2 = 0 then Inl DivisionByZero
      else
        let (r1, g1) = random_call g;
            parent1_i = (r1 mod (POPULATION_SIZE cfg div 2)) * INDIVIDUAL_LEN cfg;
            (r2, g2) = random_call g1;
            parent2_i = (r2 mod (POPULATION_SIZE cfg div 2)) * INDIVIDUAL_LEN cfg
        in if int (INDIVIDUAL_LEN cfg) - 2 = 0 then Inl DivisionByZero
           else
             let (r3, g3) = random_call g2;
                 crosspoint = int r3 smod (int (INDIVIDUAL_LEN cfg) - 2) + 1
             in Inr ((parent1_i, parent2_i, crosspoint), g3))"

text \<open>The second loop of \<open>crossover\<close>: \<open>i\<close> advances by two individuals per round.\<close>

function children_loop ::
  "config \<Rightarrow> buffer \<Rightarrow> nat \<Rightarrow> buffer \<Rightarrow> rng \<Rightarrow> fault + (buffer \<times> rng)" where
  "children_loop cfg oldPopulation i newPopulation g =
     (if i < POPULATION_SIZE cfg * INDIVIDUAL_LEN cfg
      then (case draw_parents cfg g of
              Inl e \<Rightarrow> Inl e
            | Inr ((parent1_i, parent2_i, crosspoint), g') \<Rightarrow>
                children_loop cfg oldPopulation (i + 2 * INDIVIDUAL_LEN cfg)
                  (write_children cfg oldPopulation i parent1_i parent2_i crosspoint newPopulation)
                  g')
      else Inr (newPopulation, g))"
  by pat_completeness auto
termination
proof (relation "measure (\<lambda>(cfg, oldPopulation, i, newPopulation, g).
                           POPULATION_SIZE cfg * INDIVIDUAL_LEN cfg - i)")
  show "wf (measure (\<lambda>(cfg, oldPopulation, i, newPopulation, g).
                       POPULATION_SIZE cfg * INDIVIDUAL_LEN cfg - i))"
    by simp
next
  fix cfg :: config and oldPopulation :: buffer and i :: nat and newPopulation :: buffer
    and g :: rng and x2 x1 x2a x1a x2b x2c
  assume "i < POPULATION_SIZE cfg * INDIVIDUAL_LEN cfg"
  then have "0 < INDIVIDUAL_LEN cfg" by (cases "INDIVIDUAL_LEN cfg") simp_all
  with \<open>i < POPULATION_SIZE cfg * INDIVIDUAL_LEN cfg\<close>
  show "((cfg, oldPopulation, i + 2 * INDIVIDUAL_LEN cfg,
          write_children cfg oldPopulation i x1a x1 x2b x2c, x2),
         (cfg, oldPopulation, i, newPopulation, g))
        \<in> measure (\<lambda>(cfg, oldPopulation, i, newPopulation, g).
                      POPULATION_SIZE cfg * INDIVIDUAL_LEN cfg - i)"
    by simp
qed

definition crossover :: "config \<Rightarrow> buffer \<Rightarrow> buffer \<Rightarrow> rng \<Rightarrow> fault + (buffer \<times> rng)" where
  "crossover cfg oldPopulation newPopulation g =
     children_loop cfg oldPopulation (POPULATION_SIZE cfg div 2 * INDIVIDUAL_LEN cfg)
       (copy_fittest cfg oldPopulation newPopulation) g"

subsection \<open>The normal deviates and mutation\<close>

text \<open>
  \<open>float(rand())/RAND_MAX\<close>: both operands are converted to \<open>float\<close> and the quotient is a
  \<open>float\<close>.
\<close>

definition frand :: "config \<Rightarrow> rng \<Rightarrow> real \<times> rng" where
  "frand cfg g =
     (let (r, g') = rand_call g
      in (to_float (to_float (real r) / to_float (real (RAND_MAX cfg))), g'))"

text \<open>
  \<open>stdrand\<close> draws pairs until one falls inside the unit disc. Nothing bounds the number
  of rounds, so the function is partial: \<open>None\<close> is the run that never leaves the loop.
  The right-hand sides are computed in \<open>double\<close> (the constants \<open>-1.0\<close>, \<open>2.0\<close>, \<open>-2.0\<close> and
  the results of \<open>pow\<close> and \<open>sqrt\<close> are of that type, \<open>log\<close> of a \<open>float\<close> is a \<open>float\<close>) and
  stored in \<open>float\<close> variables.
\<close>

partial_function (option) stdrand :: "config \<Rightarrow> rng \<Rightarrow> (real \<times> rng) option" where
  "stdrand cfg g =
     (let (U1, g1) = frand cfg g;
          (U2, g2) = frand cfg g1;
          V1 = to_float (to_double (- 1 + to_double (2 * U1)));
          V2 = to_float (to_double (- 1 + to_double (2 * U2)));
          S = to_float (to_double (to_double (V1\<^sup>2) + to_double (V2\<^sup>2)))
      in if S \<ge> 1 then stdrand cfg g2
         else Some (to_float (to_double (V1 * to_double (sqrt (to_double
                      (to_double (- 2 * to_float (ln S)) / S))))), g2))"

text \<open>
  \<open>nrand\<close> takes its two arguments as \<open>float\<close>: the macros are converted when they are
  passed.
\<close>

definition nrand :: "config \<Rightarrow> real \<Rightarrow> real \<Rightarrow> rng \<Rightarrow> (real \<times> rng) option" where
  "nrand cfg mu sigma g =
     (case stdrand cfg g of
        None \<Rightarrow> None
      | Some (X1, g') \<Rightarrow> Some (to_float (to_float mu + to_float (to_float sigma * X1)), g'))"

text \<open>The conversion of a floating value to \<open>int\<close>: the fraction is dropped.\<close>

definition c_trunc :: "real \<Rightarrow> int" where
  "c_trunc x = (if 0 \<le> x then \<lfloor>x\<rfloor> else \<lceil>x\<rceil>)"

text \<open>
  The inner loop of \<open>mutation\<close>, over the genes \<open>js\<close> of individual \<open>i\<close>. In line 159
  \<open>2*frand()-1\<close> is computed in \<open>float\<close>; the product with the \<open>double\<close> constant \<open>0.01\<close>
  and the sum with the gene are computed in \<open>double\<close>, and the sum is converted to the
  \<open>float\<close> it is stored in. The comparison of line 158 converts \<open>mutNumber\<close> to \<open>float\<close>.
\<close>

fun gene_loop :: "config \<Rightarrow> nat \<Rightarrow> int \<Rightarrow> nat list \<Rightarrow> buffer \<Rightarrow> rng \<Rightarrow> (buffer \<times> rng) option" where
  "gene_loop cfg i mutNumber [] individuals g = Some (individuals, g)"
| "gene_loop cfg i mutNumber (j # js) individuals g =
     (let idx = i * INDIVIDUAL_LEN cfg + j
      in case nrand cfg (mu_genes cfg) (sigma_genes cfg) g of
           None \<Rightarrow> None
         | Some (x, g1) \<Rightarrow>
             if x < to_float (real_of_int mutNumber)
             then (let (u, g2) = frand cfg g1;
                       d = to_double (to_double 0.01 * to_float (to_float (2 * u) - 1))
                   in gene_loop cfg i mutNumber js
                        (individuals(idx := to_float (to_double (individuals idx + d)))) g2)
             else gene_loop cfg i mutNumber js individuals g1)"

text \<open>The outer loop of \<open>mutation\<close>, over the individuals \<open>is\<close>.\<close>

fun individual_loop :: "config \<Rightarrow> nat list \<Rightarrow> buffer \<Rightarrow> rng \<Rightarrow> (buffer \<times> rng) option" where
  "individual_loop cfg [] individuals g = Some (individuals, g)"
| "individual_loop cfg (i # is) individuals g =
     (case nrand cfg (mu_individuals cfg) (sigma_individuals cfg) g of
        None \<Rightarrow> None
      | Some (x, g1) \<Rightarrow>
          (case gene_loop cfg i (c_trunc x) [0..<INDIVIDUAL_LEN cfg] individuals g1 of
             None \<Rightarrow> None
           | Some (individuals', g2) \<Rightarrow> individual_loop cfg is individuals' g2))"

definition mutation :: "config \<Rightarrow> buffer \<Rightarrow> rng \<Rightarrow> (buffer \<times> rng) option" where
  "mutation cfg individuals g = individual_loop cfg [1..<POPULATION_SIZE cfg] individuals g"

subsection \<open>selection\<close>

definition myCmpPair :: "real \<times> nat \<Rightarrow> real \<times> nat \<Rightarrow> bool" where
  "myCmpPair p1 p2 = (fst p1 < fst p2)"

definition make_pairs :: "config \<Rightarrow> buffer \<Rightarrow> (real \<times> nat) list" where
  "make_pairs cfg fitnesses = map (\<lambda>i. (fitnesses i, i)) [0..<POPULATION_SIZE cfg]"

definition reorder :: "config \<Rightarrow> buffer \<Rightarrow> (real \<times> nat) list \<Rightarrow> buffer \<Rightarrow> buffer" where
  "reorder cfg population pairs newPopulation =
     fold (\<lambda>i np.
             fold (\<lambda>j np'. np'(i * INDIVIDUAL_LEN cfg + j :=
                                 population (snd (pairs ! i) * INDIVIDUAL_LEN cfg + j)))
                  [0..<INDIVIDUAL_LEN cfg] np)
          [0..<POPULATION_SIZE cfg] newPopulation"

type_synonym sorter =
  "(real \<times> nat \<Rightarrow> real \<times> nat \<Rightarrow> bool) \<Rightarrow> (real \<times> nat) list \<Rightarrow> (real \<times> nat) list"

definition selection :: "sorter \<Rightarrow> config \<Rightarrow> buffer \<Rightarrow> buffer \<Rightarrow> buffer \<Rightarrow> buffer" where
  "selection srt cfg population fitnesses newPopulation =
     reorder cfg population (srt myCmpPair (make_pairs cfg fitnesses)) newPopulation"

text \<open>
  What the C++ standard promises of \<open>std::sort(first, last, comp)\<close>: the range holds the
  same elements afterwards, and no element compares less than one that stands before it.
  The order of equivalent elements is not promised.
\<close>

definition std_sort_contract :: "sorter \<Rightarrow> bool" where
  "std_sort_contract srt =
     (\<forall>ps. mset (srt myCmpPair ps) = mset ps \<and>
           sorted_wrt (\<lambda>a b. \<not> myCmpPair b a) (srt myCmpPair ps))"

subsection \<open>std::sort as the GNU C++ library implements it\<close>

text \<open>
  The makefile builds the program with g++, whose library libstdc++ implements
  \<open>std::sort\<close> in the header \<open>bits/stl_algo.h\<close> (and \<open>bits/stl_heap.h\<close>) as an
  introsort: while a range has more than 16 elements it is partitioned around the median
  of three of its elements, or sorted as a heap once \<open>2 * lg n\<close> partitions are nested;
  one insertion sort over the whole array ends the work. The functions below follow these
  headers. An iterator is the index in the array it points to, and the array is a list.
  The unguarded loops of the library rely on a sentinel in the data; here they also stop
  at the ends of the array.
\<close>

text \<open>\<open>std::iter_swap\<close> and \<open>std::move_backward\<close> on the array.\<close>

definition iter_swap :: "nat \<Rightarrow> nat \<Rightarrow> 'a list \<Rightarrow> 'a list" where
  "iter_swap a b xs = xs[a := xs ! b, b := xs ! a]"

definition move_backward :: "nat \<Rightarrow> nat \<Rightarrow> nat \<Rightarrow> 'a list \<Rightarrow> 'a list" where
  "move_backward first lst d_lst xs =
     fold (\<lambda>k ys. ys[d_lst - Suc k := ys ! (lst - Suc k)]) [0..<lst - first] xs"

text \<open>
  \<open>__unguarded_linear_insert\<close>: the element at \<open>lst\<close> is moved down past every element
  that is greater.
\<close>

fun linear_insert :: "('a \<Rightarrow> 'a \<Rightarrow> bool) \<Rightarrow> 'a \<Rightarrow> nat \<Rightarrow> 'a list \<Rightarrow> 'a list" where
  "linear_insert cmp val 0 xs = xs[0 := val]"
| "linear_insert cmp val (Suc nxt) xs =
     (if cmp val (xs ! nxt)
      then linear_insert cmp val nxt (xs[Suc nxt := xs ! nxt])
      else xs[Suc nxt := val])"

definition unguarded_linear_insert :: "('a \<Rightarrow> 'a \<Rightarrow> bool) \<Rightarrow> nat \<Rightarrow> 'a list \<Rightarrow> 'a list" where
  "unguarded_linear_insert cmp lst xs = linear_insert cmp (xs ! lst) lst xs"

text \<open>\<open>__insertion_sort\<close>, \<open>__unguarded_insertion_sort\<close> and \<open>__final_insertion_sort\<close>.\<close>

definition insertion_sort :: "('a \<Rightarrow> 'a \<Rightarrow> bool) \<Rightarrow> nat \<Rightarrow> nat \<Rightarrow> 'a list \<Rightarrow> 'a list" where
  "insertion_sort cmp first lst xs =
     fold (\<lambda>i ys. if cmp (ys ! i) (ys ! first)
                   then (let val = ys ! i in (move_backward first i (Suc i) ys)[first := val])
                   else unguarded_linear_insert cmp i ys)
          [Suc first..<lst] xs"

definition unguarded_insertion_sort ::
  "('a \<Rightarrow> 'a \<Rightarrow> bool) \<Rightarrow> nat \<Rightarrow> nat \<Rightarrow> 'a list \<Rightarrow> 'a list" where
  "unguarded_insertion_sort cmp first lst xs =
     fold (\<lambda>i ys. unguarded_linear_insert cmp i ys) [first..<lst] xs"

definition final_insertion_sort ::
  "('a \<Rightarrow> 'a \<Rightarrow> bool) \<Rightarrow> nat \<Rightarrow> nat \<Rightarrow> 'a list \<Rightarrow> 'a list" where
  "final_insertion_sort cmp first lst xs =
     (if lst - first > 16
      then unguarded_insertion_sort cmp (first + 16) lst
             (insertion_sort cmp first (first + 16) xs)
      else insertion_sort cmp first lst xs)"

text \<open>
  \<open>__move_median_to_first\<close>, the two scans of \<open>__unguarded_partition\<close>, its outer loop
  and \<open>__unguarded_partition_pivot\<close>. The partition returns the cut together with the
  array.
\<close>

definition move_median_to_first ::
  "('a \<Rightarrow> 'a \<Rightarrow> bool) \<Rightarrow> nat \<Rightarrow> nat \<Rightarrow> nat \<Rightarrow> nat \<Rightarrow> 'a list \<Rightarrow> 'a list" where
  "move_median_to_first cmp result a b c xs =
     (if cmp (xs ! a) (xs ! b)
      then (if cmp (xs ! b) (xs ! c) then iter_swap result b xs
            else if cmp (xs ! a) (xs ! c) then iter_swap result c xs
            else iter_swap result a xs)
      else if cmp (xs ! a) (xs ! c) then iter_swap result a xs
      else if cmp (xs ! b) (xs ! c) then iter_swap result c xs
      else iter_swap result b xs)"

function scan_up :: "('a \<Rightarrow> 'a \<Rightarrow> bool) \<Rightarrow> 'a list \<Rightarrow> nat \<Rightarrow> nat \<Rightarrow> nat" where
  "scan_up cmp xs pivot first =
     (if first < length xs \<and> cmp (xs ! first) (xs ! pivot)
      then scan_up cmp xs pivot (Suc first) else first)"
  by pat_completeness auto
termination
  by (relation "measure (\<lambda>(cmp, xs, pivot, first). length xs - first)") auto

fun scan_down :: "('a \<Rightarrow> 'a \<Rightarrow> bool) \<Rightarrow> 'a list \<Rightarrow> nat \<Rightarrow> nat \<Rightarrow> nat" where
  "scan_down cmp xs pivot 0 = 0"
| "scan_down cmp xs pivot (Suc l) =
     (if cmp (xs ! pivot) (xs ! Suc l) then scan_down cmp xs pivot l else Suc l)"

function unguarded_partition ::
  "('a \<Rightarrow> 'a \<Rightarrow> bool) \<Rightarrow> nat \<Rightarrow> nat \<Rightarrow> nat \<Rightarrow> 'a list \<Rightarrow> nat \<times> 'a list" where
  "unguarded_partition cmp pivot first lst xs =
     (let first' = scan_up cmp xs pivot first;
          lst' = scan_down cmp xs pivot (lst - 1)
      in if \<not> first' < lst' then (first', xs)
         else unguarded_partition cmp pivot (Suc first') lst' (iter_swap first' lst' xs))"
  by pat_completeness auto
termination
proof (relation "measure (\<lambda>(cmp, pivot, first, lst, xs). lst)")
  show "wf (measure (\<lambda>(cmp, pivot, first, lst, xs). lst))" by simp
next
  fix cmp :: "'a \<Rightarrow> 'a \<Rightarrow> bool" and pivot first lst :: nat and xs :: "'a list" and x xa
  assume x: "x = scan_up cmp xs pivot first" and xa: "xa = scan_down cmp xs pivot (lst - 1)"
    and lt: "\<not> \<not> x < xa"
  have le: "scan_down cmp xs pivot l \<le> l" for l
    by (induction l) auto
  have "xa \<le> lst - 1" unfolding xa by (rule le)
  moreover have "0 < xa" using lt by simp
  ultimately have "xa < lst" by simp
  then show "((cmp, pivot, Suc x, xa, iter_swap x xa xs), (cmp, pivot, first, lst, xs))
               \<in> measure (\<lambda>(cmp, pivot, first, lst, xs). lst)"
    by simp
qed

definition unguarded_partition_pivot ::
  "('a \<Rightarrow> 'a \<Rightarrow> bool) \<Rightarrow> nat \<Rightarrow> nat \<Rightarrow> 'a list \<Rightarrow> nat \<times> 'a list" where
  "unguarded_partition_pivot cmp first lst xs =
     (let mid = first + (lst - first) div 2
      in unguarded_partition cmp first (first + 1) lst
           (move_median_to_first cmp first (first + 1) mid (lst - 1) xs))"

text \<open>
  The heap sort that takes over when the depth limit is used up: \<open>__push_heap\<close>,
  \<open>__adjust_heap\<close> (its while loop first), \<open>__make_heap\<close>, \<open>__pop_heap\<close>, \<open>__sort_heap\<close>,
  \<open>__heap_select\<close> and \<open>__partial_sort\<close>.
\<close>

function push_heap ::
  "('a \<Rightarrow> 'a \<Rightarrow> bool) \<Rightarrow> nat \<Rightarrow> nat \<Rightarrow> nat \<Rightarrow> 'a \<Rightarrow> 'a list \<Rightarrow> 'a list" where
  "push_heap cmp first holeIndex topIndex val xs =
     (let parent = (holeIndex - 1) div 2
      in if holeIndex > topIndex \<and> cmp (xs ! (first + parent)) val
         then push_heap cmp first parent topIndex val (xs[first + holeIndex := xs ! (first + parent)])
         else xs[first + holeIndex := val])"
  by pat_completeness auto
termination
  by (relation "measure (\<lambda>(cmp, first, holeIndex, topIndex, val, xs). holeIndex)") auto

function adjust_heap_loop ::
  "('a \<Rightarrow> 'a \<Rightarrow> bool) \<Rightarrow> nat \<Rightarrow> nat \<Rightarrow> nat \<Rightarrow> nat \<Rightarrow> 'a list \<Rightarrow> nat \<times> nat \<times> 'a list" where
  "adjust_heap_loop cmp first len holeIndex secondChild xs =
     (if secondChild < (len - 1) div 2
      then (let s = 2 * (secondChild + 1);
                s' = (if cmp (xs ! (first + s)) (xs ! (first + (s - 1))) then s - 1 else s)
            in adjust_heap_loop cmp first len s' s' (xs[first + holeIndex := xs ! (first + s')]))
      else (holeIndex, secondChild, xs))"
  by pat_completeness auto
termination
  by (relation "measure (\<lambda>(cmp, first, len, holeIndex, secondChild, xs). len - secondChild)")
     auto

definition adjust_heap ::
  "('a \<Rightarrow> 'a \<Rightarrow> bool) \<Rightarrow> nat \<Rightarrow> nat \<Rightarrow> nat \<Rightarrow> 'a \<Rightarrow> 'a list \<Rightarrow> 'a list" where
  "adjust_heap cmp first holeIndex len val xs =
     (let (hole, secondChild, ys) = adjust_heap_loop cmp first len holeIndex holeIndex xs;
          (hole', ys') =
            (if even len \<and> secondChild = (len - 2) div 2
             then (let s = 2 * (secondChild + 1)
                   in (s - 1, ys[first + hole := ys ! (first + (s - 1))]))
             else (hole, ys))
      in push_heap cmp first hole' holeIndex val ys')"

definition make_heap :: "('a \<Rightarrow> 'a \<Rightarrow> bool) \<Rightarrow> nat \<Rightarrow> nat \<Rightarrow> 'a list \<Rightarrow> 'a list" where
  "make_heap cmp first lst xs =
     (if lst - first < 2 then xs
      else let len = lst - first
           in fold (\<lambda>parent ys. adjust_heap cmp first parent len (ys ! (first + parent)) ys)
                   (rev [0..<Suc ((len - 2) div 2)]) xs)"

definition pop_heap :: "('a \<Rightarrow> 'a \<Rightarrow> bool) \<Rightarrow> nat \<Rightarrow> nat \<Rightarrow> nat \<Rightarrow> 'a list \<Rightarrow> 'a list" where
  "pop_heap cmp first lst result xs =
     (let val = xs ! result
      in adjust_heap cmp first 0 (lst - first) val (xs[result := xs ! first]))"

definition sort_heap :: "('a \<Rightarrow> 'a \<Rightarrow> bool) \<Rightarrow> nat \<Rightarrow> nat \<Rightarrow> 'a list \<Rightarrow> 'a list" where
  "sort_heap cmp first lst xs =
     fold (\<lambda>l ys. pop_heap cmp first l l ys) (rev [Suc first..<lst]) xs"

definition heap_select ::
  "('a \<Rightarrow> 'a \<Rightarrow> bool) \<Rightarrow> nat \<Rightarrow> nat \<Rightarrow> nat \<Rightarrow> 'a list \<Rightarrow> 'a list" where
  "heap_select cmp first middle lst xs =
     fold (\<lambda>i ys. if cmp (ys ! i) (ys ! first) then pop_heap cmp first middle i ys else ys)
          [middle..<lst] (make_heap cmp first middle xs)"

definition partial_sort ::
  "('a \<Rightarrow> 'a \<Rightarrow> bool) \<Rightarrow> nat \<Rightarrow> nat \<Rightarrow> nat \<Rightarrow> 'a list \<Rightarrow> 'a list" where
  "partial_sort cmp first middle lst xs =
     sort_heap cmp first middle (heap_select cmp first middle lst xs)"

text \<open>
  \<open>__introsort_loop\<close>: the recursive call sorts the upper part, the loop goes on with the
  lower part, both with the decremented depth limit.
\<close>

fun introsort_loop ::
  "('a \<Rightarrow> 'a \<Rightarrow> bool) \<Rightarrow> nat \<Rightarrow> nat \<Rightarrow> nat \<Rightarrow> 'a list \<Rightarrow> 'a list" where
  "introsort_loop cmp first lst 0 xs =
     (if lst - first > 16 then partial_sort cmp first lst lst xs else xs)"
| "introsort_loop cmp first lst (Suc depth_limit) xs =
     (if lst - first > 16
      then (let (cut, ys) = unguarded_partition_pivot cmp first lst xs
            in introsort_loop cmp first cut depth_limit
                 (introsort_loop cmp cut lst depth_limit ys))
      else xs)"

text \<open>\<open>std::__lg\<close>, the binary logarithm rounded down, and \<open>std::sort\<close> itself.\<close>

function std_lg :: "nat \<Rightarrow> nat" where
  "std_lg n = (if n < 2 then 0 else Suc (std_lg (n div 2)))"
  by pat_completeness auto
termination
  by (relation "measure (\<lambda>n. n)") auto

definition std_sort :: "('a \<Rightarrow> 'a \<Rightarrow> bool) \<Rightarrow> 'a list \<Rightarrow> 'a list" where
  "std_sort cmp xs =
     (if xs = [] then xs
      else final_insertion_sort cmp 0 (length xs)
             (introsort_loop cmp 0 (length xs) (std_lg (length xs) * 2) xs))"

subsection \<open>The generation loop of main\<close>

record ga_state =
  population :: buffer
  newPopulation :: buffer
  current_fitnesses :: buffer
  generationNumber :: nat
  noChangeIter :: nat
  bestFitness :: "real option"
  previousBestFitness :: "real option"
  gen :: rng

text \<open>\<open>fabs(bestFitness - previousBestFitness) < 0.01\<close>, with \<open>None\<close> for \<open>INFINITY\<close>.\<close>

definition no_change :: "real \<Rightarrow> real option \<Rightarrow> bool" where
  "no_change best previous =
     (case previous of None \<Rightarrow> False | Some p \<Rightarrow> \<bar>to_float (best - p)\<bar> < to_double 0.01)"

text \<open>The body of the while loop.\<close>

definition generation :: "sorter \<Rightarrow> config \<Rightarrow> buffer \<Rightarrow> ga_state \<Rightarrow> (fault + ga_state) option" where
  "generation srt cfg points st =
     (case crossover cfg (population st) (newPopulation st) (gen st) of
        Inl e \<Rightarrow> Some (Inl e)
      | Inr (crossed, g1) \<Rightarrow>
          (case mutation cfg crossed g1 of
             None \<Rightarrow> None
           | Some (mutated, g2) \<Rightarrow>
               let cf = fitness cfg mutated points (current_fitnesses st);
                   best = cf 0;
                   sorted = selection srt cfg mutated cf (population st)
               in Some (Inr \<lparr>population = sorted,
                              newPopulation = mutated,
                              current_fitnesses = cf,
                              generationNumber = generationNumber st + 1,
                              noChangeIter =
                                (if no_change best (previousBestFitness st)
                                 then noChangeIter st + 1 else 0),
                              bestFitness = Some best,
                              previousBestFitness = Some best,
                              gen = g2\<rparr>)))"

definition loop_condition :: "config \<Rightarrow> ga_state \<Rightarrow> bool" where
  "loop_condition cfg st =
     (generationNumber st < maxGenerationNumber cfg
      \<and> (case bestFitness st of None \<Rightarrow> True | Some b \<Rightarrow> b > targetErr cfg)
      \<and> noChangeIter st < maxConstIter cfg)"

partial_function (option) ga_loop ::
  "sorter \<Rightarrow> config \<Rightarrow> buffer \<Rightarrow> ga_state \<Rightarrow> (fault + ga_state) option" where
  "ga_loop srt cfg points st =
     (if loop_condition cfg st
      then (case generation srt cfg points st of
              None \<Rightarrow> None
            | Some (Inl e) \<Rightarrow> Some (Inl e)
            | Some (Inr st') \<Rightarrow> ga_loop srt cfg points st')
      else Some (Inr st))"

text \<open>The first population: every gene is \<open>((float)rand()/RAND_MAX)*10 - 5\<close>.\<close>

definition init_population :: "config \<Rightarrow> buffer \<Rightarrow> rng \<Rightarrow> buffer \<times> rng" where
  "init_population cfg mem g =
     fold (\<lambda>i (p, g). let (r, g') = rand_call g
                       in (p(i := to_float (to_float
                                    (to_float (to_float (real r) / to_float (real (RAND_MAX cfg)))
                                     * 10) - 5)), g'))
          [0..<POPULATION_SIZE cfg * INDIVIDUAL_LEN cfg] (mem, g)"

record report =
  solution :: "real list"
  best :: "real option"
  generations :: nat

datatype outcome = UsageError | FileError | Crashed fault | Finished report

text \<open>
  The checks of \<open>main\<close> that come before the buffers are allocated. \<open>file\<close> is what
  \<open>readData\<close> returns: \<open>None\<close> when the file cannot be opened, the points otherwise.
\<close>

definition startup :: "nat \<Rightarrow> buffer option \<Rightarrow> outcome + buffer" where
  "startup argc file =
     (if argc \<noteq> 2 then Inl UsageError
      else case file of None \<Rightarrow> Inl FileError | Some points \<Rightarrow> Inr points)"

text \<open>
  \<open>main\<close>. The three stores \<open>mem1\<close>, \<open>mem2\<close>, \<open>mem3\<close> are the contents of the freshly
  allocated buffers.
\<close>

definition main ::
  "sorter \<Rightarrow> config \<Rightarrow> nat \<Rightarrow> buffer option \<Rightarrow> buffer \<Rightarrow> buffer \<Rightarrow> buffer \<Rightarrow> rng \<Rightarrow> outcome option" where
  "main srt cfg argc file mem1 mem2 mem3 g =
     (case startup argc file of
        Inl e \<Rightarrow> Some e
      | Inr points \<Rightarrow>
          (let (p, g') = init_population cfg mem1 g;
               st = \<lparr>population = p, newPopulation = mem2, current_fitnesses = mem3,
                     generationNumber = 0, noChangeIter = 0,
                     bestFitness = None, previousBestFitness = None, gen = g'\<rparr>
           in (case ga_loop srt cfg points st of
                 None \<Rightarrow> None
               | Some (Inl e) \<Rightarrow> Some (Crashed e)
               | Some (Inr st') \<Rightarrow>
                   Some (Finished \<lparr>solution = map (population st') [0, 1, 2, 3],
                                   best = bestFitness st',
                                   generations = generationNumber st'\<rparr>))))"

subsection \<open>The MPI driver: gathering the results and choosing the best\<close>

text \<open>
  The driver embedded here is the one that defines \<open>findMinimum\<close> and gathers the
  results on the master. The sources also hold a second MPI \<open>main\<close> (mpi_version.cpp) in
  which every process only prints its own result; it has neither the gathering nor the
  check of the number of processes, and nothing below is about it.
\<close>

definition findMinimum :: "buffer \<Rightarrow> nat \<Rightarrow> nat" where
  "findMinimum array arrayLen =
     snd (fold (\<lambda>i (mn, minIdx). if array i < mn then (array i, i) else (mn, minIdx))
               [1..<arrayLen] (array 0, 0))"

text \<open>What \<open>computeGA\<close> hands back on one process.\<close>

record run_result =
  solution_o :: "real list"
  bestFitness_o :: real
  time_o :: real
  genNumber_o :: int

text \<open>
  The four arrays of the master. Rank \<open>i\<close> of \<open>1 .. commSize - 1\<close> is received into slot
  \<open>i\<close>; the master's own result is copied to \<open>masterProcess + i\<close> and slot \<open>masterProcess\<close>.
\<close>

record gathered =
  solution_all :: buffer
  bestFitness_all :: buffer
  time_all :: buffer
  genNumber_all :: "nat \<Rightarrow> int"

definition receive_from :: "config \<Rightarrow> run_result list \<Rightarrow> nat \<Rightarrow> gathered \<Rightarrow> gathered" where
  "receive_from cfg results i a =
     a\<lparr>solution_all :=
          fold (\<lambda>k s. s(i * INDIVIDUAL_LEN cfg + k := solution_o (results ! i) ! k))
               [0..<INDIVIDUAL_LEN cfg] (solution_all a),
       bestFitness_all := (bestFitness_all a)(i := bestFitness_o (results ! i)),
       time_all := (time_all a)(i := time_o (results ! i)),
       genNumber_all := (genNumber_all a)(i := genNumber_o (results ! i))\<rparr>"

definition copy_own :: "config \<Rightarrow> nat \<Rightarrow> run_result \<Rightarrow> gathered \<Rightarrow> gathered" where
  "copy_own cfg masterProcess own a =
     a\<lparr>solution_all :=
          fold (\<lambda>i s. s(masterProcess + i := solution_o own ! i))
               [0..<INDIVIDUAL_LEN cfg] (solution_all a),
       bestFitness_all := (bestFitness_all a)(masterProcess := bestFitness_o own),
       time_all := (time_all a)(masterProcess := time_o own),
       genNumber_all := (genNumber_all a)(masterProcess := genNumber_o own)\<rparr>"

definition gather :: "config \<Rightarrow> nat \<Rightarrow> run_result list \<Rightarrow> gathered \<Rightarrow> gathered" where
  "gather cfg commSize results a =
     copy_own cfg 0 (results ! 0) (fold (receive_from cfg results) [1..<commSize] a)"

text \<open>What the master prints at the end: the winning rank and its result.\<close>

definition global_result :: "config \<Rightarrow> nat \<Rightarrow> gathered \<Rightarrow> nat \<times> run_result" where
  "global_result cfg commSize a =
     (let bestSolution = findMinimum (bestFitness_all a) commSize
      in (bestSolution,
          \<lparr>solution_o = map (\<lambda>i. solution_all a (bestSolution * INDIVIDUAL_LEN cfg + i))
                             [0..<INDIVIDUAL_LEN cfg],
           bestFitness_o = bestFitness_all a bestSolution,
           time_o = time_all a bestSolution,
           genNumber_o = genNumber_all a bestSolution\<rparr>))"

text \<open>
  The actions of the MPI \<open>main\<close> in the order they happen, and how it ends. The flags
  \<open>init_ok\<close>, \<open>exchange_ok\<close> and \<open>finalize_ok\<close> say whether the calls wrapped in
  \<open>MPI_CHECK\<close> succeed (a failed one prints and aborts): \<open>MPI_Init\<close>, \<open>MPI_Comm_size\<close>
  and \<open>MPI_Comm_rank\<close>; the sends and receives; \<open>MPI_Finalize\<close>. \<open>all_results\<close> holds,
  by rank, what \<open>computeGA\<close> returns on every process, and \<open>fresh_arrays\<close> the contents
  of the master's arrays when they are allocated.
\<close>

datatype action =
    PrintUsage
  | MpiInit
  | PrintTooManyProcesses
  | ReadData
  | ComputeGA
  | PrintOwn run_result
  | Exchange
  | PrintGlobal nat run_result
  | MpiFinalize
  | MpiAbort

datatype ending = Return_minus_1 | Aborted | Return_0

record mpi_env =
  mpi_argc :: nat
  init_ok :: bool
  exchange_ok :: bool
  finalize_ok :: bool
  commSize :: nat
  commRank :: nat
  points_file :: "buffer option"
  all_results :: "run_result list"
  fresh_arrays :: gathered

definition finalize :: "mpi_env \<Rightarrow> action list \<Rightarrow> action list \<times> ending" where
  "finalize env done =
     (if finalize_ok env then (done @ [MpiFinalize], Return_0)
      else (done @ [MpiFinalize, MpiAbort], Aborted))"

definition mpi_main :: "config \<Rightarrow> mpi_env \<Rightarrow> action list \<times> ending" where
  "mpi_main cfg env =
     (if mpi_argc env \<noteq> 2 then ([PrintUsage], Return_minus_1)
      else if \<not> init_ok env then ([MpiInit, MpiAbort], Aborted)
      else if commSize env > 4 then ([MpiInit, PrintTooManyProcesses], Return_minus_1)
      else (case points_file env of
        None \<Rightarrow> ([MpiInit, ReadData], Return_minus_1)
      | Some points \<Rightarrow>
          (let own = all_results env ! commRank env;
               before = [MpiInit, ReadData, ComputeGA, PrintOwn own, Exchange]
           in if \<not> exchange_ok env \<and> (commRank env \<noteq> 0 \<or> 1 < commSize env)
              then (before @ [MpiAbort], Aborted)
              else if commRank env = 0
              then (let (r, res) = global_result cfg (commSize env)
                                     (gather cfg (commSize env) (all_results env) (fresh_arrays env))
                    in finalize env (before @ [PrintGlobal r res]))
              else finalize env before)))"

subsection \<open>Concrete inputs used in the examples\<close>

text \<open>A store that holds the given values at its first indices and zero elsewhere.\<close>

definition mem :: "real list \<Rightarrow> buffer" where
  "mem xs = (\<lambda>i. if i < length xs then xs ! i else 0)"




text \<open>Four individuals of four genes and one point; no gene is ever mutated.\<close>

definition cfg_cubic :: config where
  "cfg_cubic = \<lparr>POPULATION_SIZE = 4, INDIVIDUAL_LEN = 4, N_POINTS = 1,
                mu_individuals = 0, sigma_individuals = 0, mu_genes = 1, sigma_genes = 0,
                maxGenerationNumber = 1, maxConstIter = 1, targetErr = 0, RAND_MAX = 2147483647\<rparr>"

text \<open>
  Three processes whose runs end with the fitness values 0.5, 0.1 and 0.9, seen from the
  master; and a start with five processes.
\<close>

definition three_results :: "run_result list" where
  "three_results =
     [\<lparr>solution_o = [1, 2, 3, 4], bestFitness_o = 0.5, time_o = 2, genNumber_o = 10\<rparr>,
      \<lparr>solution_o = [5, 6, 7, 8], bestFitness_o = 0.1, time_o = 3, genNumber_o = 20\<rparr>,
      \<lparr>solution_o = [9, 8, 7, 6], bestFitness_o = 0.9, time_o = 1, genNumber_o = 30\<rparr>]"

definition no_arrays :: gathered where
  "no_arrays = \<lparr>solution_all = mem [], bestFitness_all = mem [], time_all = mem [],
                genNumber_all = (\<lambda>i. 0)\<rparr>"

definition master_of_three :: mpi_env where
  "master_of_three = \<lparr>mpi_argc = 2, init_ok = True, exchange_ok = True, finalize_ok = True,
                      commSize = 3, commRank = 0, points_file = Some (mem [0, 0]),
                      all_results = three_results, fresh_arrays = no_arrays\<rparr>"

definition one_of_five :: mpi_env where
  "one_of_five = \<lparr>mpi_argc = 2, init_ok = True, exchange_ok = True, finalize_ok = True,
                  commSize = 5, commRank = 0, points_file = Some (mem [0, 0]),
                  all_results = [], fresh_arrays = no_arrays\<rparr>"

text \<open>
  Random sources for the examples: \<open>random()\<close> returns 0 throughout (after 1, 0, 1 in
  the second one) and \<open>rand()\<close> returns 1610612736 throughout, which \<open>frand\<close> turns into
  3/4 when \<open>RAND_MAX\<close> is 2147483647; in the last one the fifth call of \<open>rand()\<close>
  returns \<open>RAND_MAX\<close>. The population \<open>ramp\<close> gives individual \<open>k\<close> four genes of value
  \<open>k\<close>.
\<close>

definition zero_rng :: rng where
  "zero_rng = \<lparr>random_src = sconst 0, rand_src = sconst 1610612736\<rparr>"

definition cfg_eight :: config where
  "cfg_eight = \<lparr>POPULATION_SIZE = 8, INDIVIDUAL_LEN = 4, N_POINTS = 1,
                mu_individuals = 0, sigma_individuals = 0, mu_genes = 1, sigma_genes = 0,
                maxGenerationNumber = 1, maxConstIter = 1, targetErr = 0, RAND_MAX = 2147483647\<rparr>"

definition ramp :: buffer where
  "ramp = (\<lambda>i. real (i div 4))"

definition rng_101 :: rng where
  "rng_101 = \<lparr>random_src = 1 ## 0 ## 1 ## sconst 0, rand_src = sconst 1610612736\<rparr>"

definition rng_full :: rng where
  "rng_full = \<lparr>random_src = sconst 0,
                rand_src = 1610612736 ## 1610612736 ## 1610612736 ## 1610612736
                           ## 2147483647 ## sconst 1610612736\<rparr>"

text \<open>Every value that \<open>rand()\<close> will return is at most \<open>RAND_MAX\<close>.\<close>

definition rand_bounded :: "config \<Rightarrow> rng \<Rightarrow> bool" where
  "rand_bounded cfg g = (\<forall>r\<in>sset (rand_src g). r \<le> RAND_MAX cfg)"

text \<open>Two individuals of two genes; every gene of the second one is mutated.\<close>

definition cfg_mut :: config where
  "cfg_mut = \<lparr>POPULATION_SIZE = 2, INDIVIDUAL_LEN = 2, N_POINTS = 1,
               mu_individuals = 2, sigma_individuals = 0, mu_genes = 1, sigma_genes = 0,
               maxGenerationNumber = 1, maxConstIter = 1, targetErr = 0, RAND_MAX = 2147483647\<rparr>"

subsection \<open>Evaluations of the fitness without overflow\<close>






subsection \<open>Notions for stating the properties of selection\<close>

text \<open>
  Individual \<open>i\<close> of a buffer as the list of its genes, the population as the list of
  its individuals, and the order in which selection lays the old individuals out.
\<close>

definition individual :: "config \<Rightarrow> buffer \<Rightarrow> nat \<Rightarrow> real list" where
  "individual cfg buf i = map (\<lambda>j. buf (i * INDIVIDUAL_LEN cfg + j)) [0..<INDIVIDUAL_LEN cfg]"

definition individuals_of :: "config \<Rightarrow> buffer \<Rightarrow> real list list" where
  "individuals_of cfg buf = map (individual cfg buf) [0..<POPULATION_SIZE cfg]"

definition selected_order :: "sorter \<Rightarrow> config \<Rightarrow> buffer \<Rightarrow> nat list" where
  "selected_order srt cfg fitnesses = map snd (srt myCmpPair (make_pairs cfg fitnesses))"

text \<open>
  A sorting function that meets the contract of \<open>std::sort\<close>: insertion into an ordered
  list in front of the first element that is not smaller, the elements taken from the
  back of the input.
\<close>

fun insert_before :: "('a \<Rightarrow> 'a \<Rightarrow> bool) \<Rightarrow> 'a \<Rightarrow> 'a list \<Rightarrow> 'a list" where
  "insert_before cmp x [] = [x]"
| "insert_before cmp x (y # ys) =
     (if cmp y x then y # insert_before cmp x ys else x # y # ys)"

definition insertion_sort_from_back :: sorter where
  "insertion_sort_from_back cmp ps = foldr (insert_before cmp) ps []"

text \<open>Two individuals of one gene; twenty individuals of four genes.\<close>

definition cfg_pair :: config where
  "cfg_pair = \<lparr>POPULATION_SIZE = 2, INDIVIDUAL_LEN = 1, N_POINTS = 1,
                mu_individuals = 0, sigma_individuals = 0, mu_genes = 1, sigma_genes = 0,
                maxGenerationNumber = 1, maxConstIter = 1, targetErr = 0, RAND_MAX = 2147483647\<rparr>"

definition cfg_twenty :: config where
  "cfg_twenty = \<lparr>POPULATION_SIZE = 20, INDIVIDUAL_LEN = 4, N_POINTS = 1,
                mu_individuals = 0, sigma_individuals = 0, mu_genes = 1, sigma_genes = 0,
                maxGenerationNumber = 1, maxConstIter = 1, targetErr = 0, RAND_MAX = 2147483647\<rparr>"

text \<open>
  A state at the start of the first generation whose population is not ranked: individual
  1 (all genes 0) fits the single point \<open>(0, 0)\<close> exactly, individual 0 does not.
\<close>

definition st_unranked :: ga_state where
  "st_unranked = \<lparr>population = mem [1, 0, 0, 0, 0, 0, 0, 0, 2, 0, 0, 0, 3, 0, 0, 0],
                   newPopulation = mem [], current_fitnesses = mem [],
                   generationNumber = 0, noChangeIter = 0,
                   bestFitness = None, previousBestFitness = None, gen = zero_rng\<rparr>"

text \<open>
  Configurations of four individuals of four genes in which, with the random source
  \<open>zero_rng\<close>, no gene is mutated; one of them with no points at all.
\<close>

definition small_quiet :: "config \<Rightarrow> bool" where
  "small_quiet cfg =
     (POPULATION_SIZE cfg = 4 \<and> INDIVIDUAL_LEN cfg = 4
      \<and> mu_individuals cfg = 0 \<and> sigma_individuals cfg = 0
      \<and> mu_genes cfg = 1 \<and> sigma_genes cfg = 0 \<and> RAND_MAX cfg = 2147483647)"

definition cfg_no_points :: config where
  "cfg_no_points = \<lparr>POPULATION_SIZE = 4, INDIVIDUAL_LEN = 4, N_POINTS = 0,
                    mu_individuals = 0, sigma_individuals = 0, mu_genes = 1, sigma_genes = 0,
                    maxGenerationNumber = 1, maxConstIter = 1, targetErr = 0, RAND_MAX = 2147483647\<rparr>"

section \<open>Properties\<close>

subsection \<open>Rounding\<close>

lemma rhe_of_int: "round_half_even (of_int n) = n"
  by (simp add: round_half_even_def)

lemma rhe_bounds: "\<lfloor>y\<rfloor> \<le> round_half_even y" "round_half_even y \<le> \<lfloor>y\<rfloor> + 1"
  by (simp_all add: round_half_even_def Let_def)

lemma rhe_mono:
  assumes "x \<le> y"
  shows "round_half_even x \<le> round_half_even y"
proof (cases "\<lfloor>x\<rfloor> = \<lfloor>y\<rfloor>")
  case True
  have "x - of_int \<lfloor>y\<rfloor> \<le> y - of_int \<lfloor>y\<rfloor>" using assms by simp
  then show ?thesis
    unfolding round_half_even_def Let_def True by auto
next
  case False
  have "\<lfloor>x\<rfloor> \<le> \<lfloor>y\<rfloor>" using assms by (rule floor_mono)
  then have "\<lfloor>x\<rfloor> + 1 \<le> \<lfloor>y\<rfloor>" using False by simp
  then show ?thesis using rhe_bounds(2) [of x] rhe_bounds(1) [of y] by linarith
qed

lemma rhe_minus: "round_half_even (- y) = - round_half_even y"
proof (cases "y \<in> \<int>")
  case True
  then obtain n where "y = of_int n" by (auto elim: Ints_cases)
  then show ?thesis using rhe_of_int [of n] rhe_of_int [of "- n"] by simp
next
  case False
  then have "y \<noteq> of_int \<lfloor>y\<rfloor>" by (metis Ints_of_int)
  then have f: "\<lfloor>- y\<rfloor> = - \<lfloor>y\<rfloor> - 1"
    by (simp add: floor_minus ceiling_altdef)
  have e: "even (- \<lfloor>y\<rfloor> - 1) \<longleftrightarrow> \<not> even \<lfloor>y\<rfloor>" by simp
  show ?thesis
    unfolding round_half_even_def Let_def f e by auto
qed

lemma rhe_le_int: "y \<le> of_int n \<Longrightarrow> round_half_even y \<le> n"
  using rhe_mono [of y "of_int n"] by (simp add: rhe_of_int)

lemma rhe_ge_int: "of_int n \<le> y \<Longrightarrow> n \<le> round_half_even y"
  using rhe_mono [of "of_int n" y] by (simp add: rhe_of_int)

lemma round_to_zero: "round_to p emin 0 = 0"
  by (simp add: round_to_def)

lemma round_to_minus: "round_to p emin (- x) = - round_to p emin x"
  by (simp add: round_to_def Let_def rhe_minus)

lemma round_to_nonneg:
  assumes "0 \<le> x"
  shows "0 \<le> round_to p emin x"
proof (cases "x = 0")
  case True
  then show ?thesis by (simp add: round_to_zero)
next
  case False
  define u where "u = 2 powr real_of_int (max \<lfloor>log 2 \<bar>x\<bar>\<rfloor> emin - int p + 1)"
  have u: "0 < u" by (simp add: u_def)
  have "0 \<le> x / u" using assms u by simp
  then have "0 \<le> round_half_even (x / u)" using rhe_ge_int [of 0 "x / u"] by simp
  then have "0 \<le> u * of_int (round_half_even (x / u))" using u by simp
  then show ?thesis using False by (simp add: round_to_def Let_def u_def)
qed

lemma floor_log2_bounds:
  assumes "0 < x"
  shows "2 powr real_of_int \<lfloor>log 2 x\<rfloor> \<le> x" "x < 2 powr real_of_int (\<lfloor>log 2 x\<rfloor> + 1)"
proof -
  have "real_of_int \<lfloor>log 2 x\<rfloor> \<le> log 2 x" by simp
  then show "2 powr real_of_int \<lfloor>log 2 x\<rfloor> \<le> x"
    using assms le_log_iff [of 2 x "real_of_int \<lfloor>log 2 x\<rfloor>"] by simp
  have "log 2 x < real_of_int (\<lfloor>log 2 x\<rfloor> + 1)" by linarith
  then show "x < 2 powr real_of_int (\<lfloor>log 2 x\<rfloor> + 1)"
    using assms log_less_iff [of 2 x "real_of_int (\<lfloor>log 2 x\<rfloor> + 1)"] by simp
qed

text \<open>
  Rounding is monotone. Two positive numbers whose leading digits have the same exponent
  are rounded on the same grid; otherwise a power of two lies between them, and rounding
  does not cross it.
\<close>

lemma round_to_pos_mono:
  assumes "0 < x" "x \<le> y" "0 < p"
  shows "round_to p emin x \<le> round_to p emin y"
proof -
  have y: "0 < y" using assms by simp
  define ex where "ex = max \<lfloor>log 2 x\<rfloor> emin"
  define ey where "ey = max \<lfloor>log 2 y\<rfloor> emin"
  define ux where "ux = 2 powr real_of_int (ex - int p + 1)"
  define uy where "uy = 2 powr real_of_int (ey - int p + 1)"
  have rx: "round_to p emin x = ux * of_int (round_half_even (x / ux))"
    using assms(1) by (simp add: round_to_def Let_def ux_def ex_def)
  have ry: "round_to p emin y = uy * of_int (round_half_even (y / uy))"
    using y by (simp add: round_to_def Let_def uy_def ey_def)
  have ux: "0 < ux" and uy: "0 < uy" by (simp_all add: ux_def uy_def)
  have "log 2 x \<le> log 2 y" using assms(1,2) by simp
  then have "\<lfloor>log 2 x\<rfloor> \<le> \<lfloor>log 2 y\<rfloor>" by (rule floor_mono)
  then have le: "ex \<le> ey" by (simp add: ex_def ey_def max.coboundedI1)
  show ?thesis
  proof (cases "ex = ey")
    case True
    then have same: "uy = ux" by (simp add: ux_def uy_def)
    have "x / ux \<le> y / ux" using assms(2) ux by (simp add: divide_right_mono)
    then have "round_half_even (x / ux) \<le> round_half_even (y / ux)" by (rule rhe_mono)
    then have "ux * of_int (round_half_even (x / ux)) \<le> ux * of_int (round_half_even (y / ux))"
      using ux by simp
    then show ?thesis unfolding rx ry same .
  next
    case False
    then have lt: "ex + 1 \<le> ey" using le by simp
    have "x < 2 powr real_of_int (\<lfloor>log 2 x\<rfloor> + 1)"
      using floor_log2_bounds(2) [OF assms(1)] .
    also have "\<dots> \<le> 2 powr real_of_int (ex + 1)"
      by (simp add: ex_def)
    finally have xb: "x \<le> 2 powr real_of_int (ex + 1)" by simp
    have q1: "2 powr real_of_int (ex + 1) / ux = of_int (2 ^ p)"
    proof -
      have "2 powr real_of_int (ex + 1) / ux
              = 2 powr (real_of_int (ex + 1) - real_of_int (ex - int p + 1))"
        unfolding ux_def by (rule powr_diff [symmetric])
      also have "\<dots> = 2 powr real p" by simp
      also have "\<dots> = 2 ^ p" by (simp add: powr_realpow)
      finally show ?thesis by simp
    qed
    have "x / ux \<le> 2 powr real_of_int (ex + 1) / ux"
      using xb ux by (simp add: divide_right_mono)
    then have "round_half_even (x / ux) \<le> 2 ^ p"
      unfolding q1 by (rule rhe_le_int)
    then have "real_of_int (round_half_even (x / ux)) \<le> real_of_int (2 ^ p)"
      by (simp only: of_int_le_iff)
    then have "ux * of_int (round_half_even (x / ux)) \<le> ux * real_of_int (2 ^ p)"
      using ux by simp
    also have "\<dots> = 2 powr real_of_int (ex + 1)"
      using q1 ux by (simp add: field_simps)
    finally have upper: "round_to p emin x \<le> 2 powr real_of_int (ex + 1)"
      unfolding rx .
    have "emin \<le> ex" by (simp add: ex_def)
    then have "emin < ey" using lt by simp
    then have eyl: "ey = \<lfloor>log 2 y\<rfloor>" by (simp add: ey_def max_def split: if_splits)
    have yb: "2 powr real_of_int ey \<le> y"
      unfolding eyl using floor_log2_bounds(1) [OF y] .
    obtain p' where p': "p = Suc p'" using assms(3) by (cases p) simp_all
    have q2: "2 powr real_of_int ey / uy = of_int (2 ^ p')"
    proof -
      have "2 powr real_of_int ey / uy
              = 2 powr (real_of_int ey - real_of_int (ey - int p + 1))"
        unfolding uy_def by (rule powr_diff [symmetric])
      also have "\<dots> = 2 powr real p'" by (simp add: p')
      also have "\<dots> = 2 ^ p'" by (simp add: powr_realpow)
      finally show ?thesis by simp
    qed
    have "2 powr real_of_int ey / uy \<le> y / uy"
      using yb uy by (simp add: divide_right_mono)
    then have "2 ^ p' \<le> round_half_even (y / uy)"
      unfolding q2 by (rule rhe_ge_int)
    then have "real_of_int (2 ^ p') \<le> real_of_int (round_half_even (y / uy))"
      by (simp only: of_int_le_iff)
    then have "uy * real_of_int (2 ^ p') \<le> uy * of_int (round_half_even (y / uy))"
      using uy by simp
    moreover have "uy * real_of_int (2 ^ p') = 2 powr real_of_int ey"
      using q2 uy by (simp add: field_simps)
    ultimately have lower: "2 powr real_of_int ey \<le> round_to p emin y"
      unfolding ry by simp
    have "2 powr real_of_int (ex + 1) \<le> 2 powr real_of_int ey"
      using lt by simp
    then show ?thesis using upper lower by linarith
  qed
qed

lemma round_to_mono:
  assumes "x \<le> y" "0 < p"
  shows "round_to p emin x \<le> round_to p emin y"
proof -
  consider "0 < x" | "x \<le> 0" "0 \<le> y" | "y < 0" using assms(1) by linarith
  then show ?thesis
  proof cases
    case 1
    then show ?thesis using round_to_pos_mono assms by simp
  next
    case 2
    have "round_to p emin x = - round_to p emin (- x)" by (simp add: round_to_minus)
    moreover have "0 \<le> round_to p emin (- x)" using 2(1) by (intro round_to_nonneg) simp
    moreover have "0 \<le> round_to p emin y" using 2(2) by (rule round_to_nonneg)
    ultimately show ?thesis by linarith
  next
    case 3
    have "round_to p emin (- y) \<le> round_to p emin (- x)"
      using 3 assms by (intro round_to_pos_mono) simp_all
    then show ?thesis by (simp add: round_to_minus)
  qed
qed

text \<open>A number that has \<open>p\<close> digits above the least exponent is its own rounding.\<close>

lemma round_to_exact:
  assumes "x = of_int m * 2 powr real_of_int k" "\<bar>m\<bar> < 2 ^ p" "emin - int p + 1 \<le> k"
  shows "round_to p emin x = x"
proof (cases "m = 0")
  case True
  then show ?thesis using assms(1) by (simp add: round_to_zero)
next
  case False
  have x0: "x \<noteq> 0" using False assms(1) by simp
  have ax: "\<bar>x\<bar> = of_int \<bar>m\<bar> * 2 powr real_of_int k"
    unfolding assms(1) by (simp add: abs_mult)
  have "real_of_int \<bar>m\<bar> < real_of_int (2 ^ p)" using assms(2) by (simp only: of_int_less_iff)
  then have "\<bar>x\<bar> < 2 ^ p * 2 powr real_of_int k"
    unfolding ax by simp
  also have "\<dots> = 2 powr real_of_int (int p + k)"
    by (simp add: powr_add powr_realpow)
  finally have "\<bar>x\<bar> < 2 powr real_of_int (int p + k)" .
  then have "log 2 \<bar>x\<bar> < real_of_int (int p + k)"
    using x0 by (simp add: log_less_iff)
  then have "\<lfloor>log 2 \<bar>x\<bar>\<rfloor> < int p + k" by (simp add: floor_less_iff)
  then have E: "max \<lfloor>log 2 \<bar>x\<bar>\<rfloor> emin - int p + 1 \<le> k"
    using assms(3) by simp
  define E where "E = max \<lfloor>log 2 \<bar>x\<bar>\<rfloor> emin - int p + 1"
  define j where "j = nat (k - E)"
  have kj: "k = E + int j" using E by (simp add: j_def E_def)
  have q: "x / 2 powr real_of_int E = of_int (m * 2 ^ j)"
  proof -
    have "2 powr real_of_int k = 2 powr real_of_int E * 2 ^ j"
      unfolding kj by (simp add: powr_add powr_realpow)
    then show ?thesis unfolding assms(1) by simp
  qed
  have "round_to p emin x
          = 2 powr real_of_int E * of_int (round_half_even (x / 2 powr real_of_int E))"
    using x0 by (simp add: round_to_def Let_def E_def)
  also have "\<dots> = 2 powr real_of_int E * (x / 2 powr real_of_int E)"
    unfolding q rhe_of_int ..
  also have "\<dots> = x" by simp
  finally show ?thesis .
qed

text \<open>The rounding of a number whose leading digit has the exponent \<open>k\<close>.\<close>

lemma round_to_eval:
  assumes "x \<noteq> 0" "2 powr real_of_int k \<le> \<bar>x\<bar>" "\<bar>x\<bar> < 2 powr real_of_int (k + 1)" "emin \<le> k"
  shows "round_to p emin x =
           2 powr real_of_int (k - int p + 1)
             * of_int (round_half_even (x / 2 powr real_of_int (k - int p + 1)))"
proof -
  have "real_of_int k \<le> log 2 \<bar>x\<bar>" using assms(1,2) by (simp add: le_log_iff)
  moreover have "log 2 \<bar>x\<bar> < real_of_int k + 1" using assms(1,3) by (simp add: log_less_iff)
  ultimately have "\<lfloor>log 2 \<bar>x\<bar>\<rfloor> = k" by (intro floor_unique) simp_all
  then show ?thesis using assms(1,4) by (simp add: round_to_def Let_def max_def)
qed

lemma to_float_mono: "x \<le> y \<Longrightarrow> to_float x \<le> to_float y"
  unfolding to_float_def by (rule round_to_mono) simp_all

lemma to_double_mono: "x \<le> y \<Longrightarrow> to_double x \<le> to_double y"
  unfolding to_double_def by (rule round_to_mono) simp_all

lemma to_float_nonneg: "0 \<le> x \<Longrightarrow> 0 \<le> to_float x"
  unfolding to_float_def by (rule round_to_nonneg)

lemma to_double_nonneg: "0 \<le> x \<Longrightarrow> 0 \<le> to_double x"
  unfolding to_double_def by (rule round_to_nonneg)


lemma to_double_minus: "to_double (- x) = - to_double x"
  unfolding to_double_def by (rule round_to_minus)

lemma to_float_dyadic:
  assumes "\<bar>m\<bar> < 2 ^ 24" "j \<le> 149"
  shows "to_float (of_int m / 2 ^ j) = of_int m / 2 ^ j"
proof -
  have "real_of_int m / 2 ^ j = of_int m * 2 powr real_of_int (- int j)"
    by (simp add: powr_minus powr_realpow divide_inverse)
  then show ?thesis
    unfolding to_float_def using assms by (intro round_to_exact [of _ m "- int j"]) simp_all
qed

lemma to_double_dyadic:
  assumes "\<bar>m\<bar> < 2 ^ 53" "j \<le> 1074"
  shows "to_double (of_int m / 2 ^ j) = of_int m / 2 ^ j"
proof -
  have "real_of_int m / 2 ^ j = of_int m * 2 powr real_of_int (- int j)"
    by (simp add: powr_minus powr_realpow divide_inverse)
  then show ?thesis
    unfolding to_double_def using assms by (intro round_to_exact [of _ m "- int j"]) simp_all
qed

lemma to_float_int: "\<bar>m\<bar> < 2 ^ 24 \<Longrightarrow> to_float (of_int m) = of_int m"
  using to_float_dyadic [of m 0] by simp

lemma to_double_int: "\<bar>m\<bar> < 2 ^ 53 \<Longrightarrow> to_double (of_int m) = of_int m"
  using to_double_dyadic [of m 0] by simp

text \<open>Values that the examples meet.\<close>

lemma to_float_small:
  "to_float 0 = 0" "to_float 1 = 1" "to_float 2 = 2" "to_float 3 = 3" "to_float (- 1) = - 1"
  "to_float (1 / 2) = 1 / 2" "to_float (3 / 2) = 3 / 2" "to_float (3 / 4) = 3 / 4"
  using to_float_int [of 0] to_float_int [of 1] to_float_int [of 2] to_float_int [of 3]
    to_float_int [of "- 1"] to_float_dyadic [of 1 1] to_float_dyadic [of 3 1]
    to_float_dyadic [of 3 2]
  by simp_all

lemma to_double_small:
  "to_double 0 = 0" "to_double 1 = 1" "to_double 2 = 2" "to_double 3 = 3"
  "to_double (1 / 2) = 1 / 2" "to_double (3 / 2) = 3 / 2" "to_double (1 / 4) = 1 / 4"
  using to_double_int [of 0] to_double_int [of 1] to_double_int [of 2] to_double_int [of 3]
    to_double_dyadic [of 1 1] to_double_dyadic [of 3 1] to_double_dyadic [of 1 2]
  by simp_all

lemma to_float_rand_values:
  "to_float 2147483647 = 2147483648" "to_float 1610612736 = 1610612736"
proof -
  show "to_float 2147483647 = 2147483648"
    unfolding to_float_def
    by (subst round_to_eval [of _ 30]) (simp_all add: round_half_even_def)
  have "(1610612736::real) = of_int 3 * 2 powr real_of_int 29" by simp
  then show "to_float 1610612736 = 1610612736"
    unfolding to_float_def by (intro round_to_exact [of _ 3 29]) simp_all
qed

lemma to_double_hundredth: "to_double (1 / 100) = 5764607523034235 / 576460752303423488"
  unfolding to_double_def
  by (subst round_to_eval [of _ "- 7"]) (simp_all add: round_half_even_def powr_minus)

lemma to_double_hundredth_exact: "to_double (to_double 0.01) = to_double 0.01"
  using to_double_dyadic [of 5764607523034235 59] by (simp add: to_double_hundredth)

text \<open>
  The amount that line 159 adds to a gene, for a value of \<open>frand()\<close> between 0 and 1, is
  at most the \<open>double\<close> constant \<open>0.01\<close> in magnitude.
\<close>

lemma mutation_step_bound:
  assumes "0 \<le> u" "u \<le> 1"
  shows "\<bar>to_double (to_double 0.01 * to_float (to_float (2 * u) - 1))\<bar> \<le> to_double 0.01"
proof -
  define c where "c = to_double 0.01"
  define t where "t = to_float (to_float (2 * u) - 1)"
  have c: "0 \<le> c" unfolding c_def by (rule to_double_nonneg) simp
  have cc: "to_double c = c" unfolding c_def by (rule to_double_hundredth_exact)
  have "to_float 0 \<le> to_float (2 * u)" using assms(1) by (intro to_float_mono) simp
  moreover have "to_float (2 * u) \<le> to_float 2" using assms(2) by (intro to_float_mono) simp
  ultimately have w: "- 1 \<le> to_float (2 * u) - 1" "to_float (2 * u) - 1 \<le> 1"
    by (simp_all add: to_float_small)
  have "to_float (- 1) \<le> t" unfolding t_def using w(1) by (rule to_float_mono)
  moreover have "t \<le> to_float 1" unfolding t_def using w(2) by (rule to_float_mono)
  ultimately have t: "- 1 \<le> t" "t \<le> 1" by (simp_all add: to_float_small)
  have "c * t \<le> c * 1" using c t(2) by (rule mult_left_mono [rotated])
  then have "to_double (c * t) \<le> to_double c" using to_double_mono [of "c * t" c] by simp
  then have up: "to_double (c * t) \<le> c" by (simp add: cc)
  have "c * (- 1) \<le> c * t" using c t(1) by (rule mult_left_mono [rotated])
  then have "to_double (- c) \<le> to_double (c * t)" using to_double_mono [of "- c" "c * t"] by simp
  then have low: "- c \<le> to_double (c * t)" by (simp add: to_double_minus cc)
  show ?thesis using up low unfolding c_def t_def by (simp add: abs_le_iff)
qed

subsection \<open>Loops over a store\<close>

lemma fold_upd_upt:
  "fold (\<lambda>i cf. cf(i := f i)) [0..<n] c = (\<lambda>i. if i < n then f i else c i)"
  by (induction n arbitrary: c) (auto simp: fun_eq_iff less_Suc_eq)

lemma fold_upd_block:
  "fold (\<lambda>k s. s(b + k := f k)) [0..<n] s0 x = (if b \<le> x \<and> x < b + n then f (x - b) else s0 x)"
  by (induction n) auto

lemma block_div_mod:
  fixes L :: nat
  assumes "n * L \<le> x" "x < n * L + L"
  shows "x div L = n" "x mod L = x - n * L"
proof -
  from assms obtain k where k: "x = n * L + k" "k < L"
    by (metis le_Suc_ex nat_add_left_cancel_less)
  show "x div L = n" using k by simp
  show "x mod L = x - n * L" using k by simp
qed

lemma block_index_unique:
  fixes L :: nat
  assumes "i * L + j = i' * L + j'" "j < L" "j' < L"
  shows "i = i'"
proof -
  have "(i * L + j) div L = i" using assms(2) by simp
  moreover have "(i' * L + j') div L = i'" using assms(3) by simp
  ultimately show ?thesis using assms(1) by simp
qed



lemma fitness_eq:
  "fitness cfg individuals points cf =
     (\<lambda>i. if i < POPULATION_SIZE cfg then point_loop cfg individuals points i else cf i)"
  unfolding fitness_def by (simp add: fold_upd_upt)







lemma individual_genes:
  assumes "individual cfg b i = individual cfg b' i'" "k < INDIVIDUAL_LEN cfg"
  shows "b (i * INDIVIDUAL_LEN cfg + k) = b' (i' * INDIVIDUAL_LEN cfg + k)"
  using assms unfolding individual_def
  by (metis (no_types, lifting) add_0 diff_zero length_upt nth_map nth_upt)

lemma point_loop_individual:
  assumes "individual cfg b i = individual cfg b' i'"
  shows "point_loop cfg b pts i = point_loop cfg b' pts i'"
proof -
  have "order_loop cfg b pts i pt = order_loop cfg b' pts i' pt" for pt
    unfolding order_loop_def
    by (rule fold_cong) (simp_all add: order_step_def fun_eq_iff individual_genes [OF assms])
  then show ?thesis unfolding point_loop_def point_step_def by simp
qed

subsection \<open>The fitness evaluator\<close>




subsection \<open>crossover\<close>

lemma smod_nonneg:
  fixes k l :: int
  assumes "0 \<le> k" "0 < l"
  shows "k smod l = k mod l"
  using assms by (cases "k = 0") (simp_all add: signed_modulo_int_def)

lemma draw_parents_crosspoint:
  assumes "draw_parents cfg g = Inr ((parent1_i, parent2_i, crosspoint), g')"
    and "3 \<le> INDIVIDUAL_LEN cfg"
  shows "1 \<le> crosspoint \<and> crosspoint \<le> int (INDIVIDUAL_LEN cfg) - 2"
proof -
  let ?r3 = "fst (random_call (snd (random_call (snd (random_call g)))))"
  have pos: "0 < int (INDIVIDUAL_LEN cfg) - 2" using assms(2) by simp
  have cp: "crosspoint = int ?r3 smod (int (INDIVIDUAL_LEN cfg) - 2) + 1"
    using assms by (auto simp: draw_parents_def Let_def split: if_splits prod.splits)
  have "int ?r3 smod (int (INDIVIDUAL_LEN cfg) - 2) = int ?r3 mod (int (INDIVIDUAL_LEN cfg) - 2)"
    using pos by (intro smod_nonneg) simp_all
  moreover have "0 \<le> int ?r3 mod (int (INDIVIDUAL_LEN cfg) - 2)"
    using pos by simp
  moreover have "int ?r3 mod (int (INDIVIDUAL_LEN cfg) - 2) < int (INDIVIDUAL_LEN cfg) - 2"
    using pos by simp
  ultimately show ?thesis using cp by linarith
qed

lemma fold_two_blocks:
  fixes A B :: "nat \<Rightarrow> real"
  assumes "n \<le> L"
  shows "fold (\<lambda>j np. np(i + j := A j, i + j + L := B j)) [0..<n] new x =
     (if i \<le> x \<and> x < i + n then A (x - i)
      else if i + L \<le> x \<and> x < i + L + n then B (x - i - L)
      else new x)"
proof -
  define F where "F = (\<lambda>j (np :: nat \<Rightarrow> real). np(i + j := A j, i + j + L := B j))"
  have F: "F j np y = (if y = i + j + L then B j else if y = i + j then A j else np y)"
    for j np y by (simp add: F_def)
  have "fold F [0..<n] new x =
     (if i \<le> x \<and> x < i + n then A (x - i)
      else if i + L \<le> x \<and> x < i + L + n then B (x - i - L)
      else new x)"
    using assms
  proof (induction n)
    case 0
    show ?case by simp
  next
    case (Suc n)
    then have IH: "fold F [0..<n] new x =
       (if i \<le> x \<and> x < i + n then A (x - i)
        else if i + L \<le> x \<and> x < i + L + n then B (x - i - L)
        else new x)" and nL: "n < L" by simp_all
    have step: "fold F [0..<Suc n] new x =
        (if x = i + n + L then B n else if x = i + n then A n else fold F [0..<n] new x)"
      using F [of n "fold F [0..<n] new" x] by simp
    consider "x = i + n" | "x = i + n + L" | "x \<noteq> i + n" "x \<noteq> i + n + L" by blast
    then show ?case
    proof cases
      case 1
      show ?thesis unfolding step using 1 nL by simp
    next
      case 2
      show ?thesis unfolding step using 2 nL by simp
    next
      case 3
      show ?thesis unfolding step IH using 3 nL by (auto simp: less_Suc_eq)
    qed
  qed
  then show ?thesis by (simp add: F_def)
qed

lemma write_children_step:
  "(\<lambda>j np.
       if int j < cp
       then np(i + j := old (p1 * L + j), i + j + L := old (p2 * L + j))
       else np(i + j := old (p2 * L + j), i + j + L := old (p1 * L + j))) =
   (\<lambda>j np. np(i + j := (if int j < cp then old (p1 * L + j) else old (p2 * L + j)),
              i + j + L := (if int j < cp then old (p2 * L + j) else old (p1 * L + j))))"
  by (auto simp: fun_eq_iff)

lemma write_children_at:
  "write_children cfg old i p1 p2 cp new x =
     (if i \<le> x \<and> x < i + INDIVIDUAL_LEN cfg
      then (if int (x - i) < cp then old (p1 * INDIVIDUAL_LEN cfg + (x - i))
            else old (p2 * INDIVIDUAL_LEN cfg + (x - i)))
      else if i + INDIVIDUAL_LEN cfg \<le> x \<and> x < i + INDIVIDUAL_LEN cfg + INDIVIDUAL_LEN cfg
      then (if int (x - i - INDIVIDUAL_LEN cfg) < cp
            then old (p2 * INDIVIDUAL_LEN cfg + (x - i - INDIVIDUAL_LEN cfg))
            else old (p1 * INDIVIDUAL_LEN cfg + (x - i - INDIVIDUAL_LEN cfg)))
      else new x)"
  unfolding write_children_def write_children_step
  by (subst fold_two_blocks) simp_all

lemma children_loop_below:
  assumes "children_loop cfg old i new g = Inr (new', g')" and "x < i"
  shows "new' x = new x"
  using assms
proof (induction cfg old i new g rule: children_loop.induct)
  case (1 cfg old i new g)
  show ?case
  proof (cases "i < POPULATION_SIZE cfg * INDIVIDUAL_LEN cfg")
    case False
    then show ?thesis using "1.prems" by simp
  next
    case True
    then obtain p1 p2 cp g1 where d: "draw_parents cfg g = Inr ((p1, p2, cp), g1)"
      using "1.prems"(1) by (auto split: sum.splits)
    have rec: "children_loop cfg old (i + 2 * INDIVIDUAL_LEN cfg)
                 (write_children cfg old i p1 p2 cp new) g1 = Inr (new', g')"
      using "1.prems"(1) True d by simp
    have "new' x = write_children cfg old i p1 p2 cp new x"
      using "1.IH" [OF True d refl refl refl rec] "1.prems"(2) by simp
    then show ?thesis using "1.prems"(2) by (simp add: write_children_at)
  qed
qed

lemma crossover_copies_fittest:
  assumes "crossover cfg old new g = Inr (new', g')"
    and "x < POPULATION_SIZE cfg div 2 * INDIVIDUAL_LEN cfg"
  shows "new' x = old x"
  using children_loop_below [OF assms [unfolded crossover_def]] assms(2)
  by (simp add: copy_fittest_def fold_upd_upt)


text \<open>
  Claim C4, as the code has it. In every crossover call with at least three genes per
  individual the crosspoint \<open>c\<close> satisfies \<open>1 \<le> c \<le> INDIVIDUAL_LEN - 2\<close>: it is neither
  the first gene position (0) nor the last (\<open>INDIVIDUAL_LEN - 1\<close>), but it can be 1. Each
  child therefore takes its first gene from the block of one parent and its last gene
  from the block of the other.
\<close>

theorem crosspoint_between_first_and_last:
  assumes "draw_parents cfg g = Inr ((parent1_i, parent2_i, crosspoint), g')"
    and "3 \<le> INDIVIDUAL_LEN cfg"
  shows "1 \<le> crosspoint \<and> crosspoint \<le> int (INDIVIDUAL_LEN cfg) - 2
         \<and> (let np = write_children cfg old i parent1_i parent2_i crosspoint new
            in np i = old (parent1_i * INDIVIDUAL_LEN cfg)
               \<and> np (i + (INDIVIDUAL_LEN cfg - 1))
                   = old (parent2_i * INDIVIDUAL_LEN cfg + (INDIVIDUAL_LEN cfg - 1))
               \<and> np (i + INDIVIDUAL_LEN cfg) = old (parent2_i * INDIVIDUAL_LEN cfg)
               \<and> np (i + INDIVIDUAL_LEN cfg + (INDIVIDUAL_LEN cfg - 1))
                   = old (parent1_i * INDIVIDUAL_LEN cfg + (INDIVIDUAL_LEN cfg - 1)))"
proof -
  have cp: "1 \<le> crosspoint" "crosspoint \<le> int (INDIVIDUAL_LEN cfg) - 2"
    using draw_parents_crosspoint [OF assms] by simp_all
  obtain k where L: "INDIVIDUAL_LEN cfg = k + 3"
    using assms(2) by (metis add.commute le_Suc_ex)
  have cpk: "crosspoint \<le> int k + 1" using cp(2) L by simp
  let ?np = "write_children cfg old i parent1_i parent2_i crosspoint new"
  have a: "?np i = old (parent1_i * (k + 3))"
    using cp(1) by (simp add: write_children_at L)
  have b: "?np (i + (k + 2)) = old (parent2_i * (k + 3) + (k + 2))"
    using cpk by (simp add: write_children_at L)
  have c: "?np (i + (k + 3)) = old (parent2_i * (k + 3))"
    using cp(1) by (simp add: write_children_at L)
  have d: "?np (i + (k + 3) + (k + 2)) = old (parent1_i * (k + 3) + (k + 2))"
    using cpk by (simp add: write_children_at L)
  have e: "INDIVIDUAL_LEN cfg - 1 = k + 2" using L by simp
  show ?thesis unfolding Let_def e using cp a b c d by (simp add: L)
qed

text \<open>
  With four genes and a third draw of 0 the crosspoint is 1, which is not strictly
  inside the open interval \<open>(1, INDIVIDUAL_LEN - 1)\<close>.
\<close>

theorem crosspoint_one:
  "draw_parents cfg_cubic zero_rng = Inr ((0, 0, 1), zero_rng)
   \<and> \<not> (1 < (1::int) \<and> (1::int) < int (INDIVIDUAL_LEN cfg_cubic) - 1)"
  by (simp add: draw_parents_def random_call_def zero_rng_def cfg_cubic_def
        signed_modulo_int_def)

theorem crosspoint_between_first_and_last_witness:
  "3 \<le> INDIVIDUAL_LEN cfg_cubic
   \<and> write_children cfg_cubic ramp 8 0 0 1 (mem []) 8 = ramp 0"
proof -
  have d: "draw_parents cfg_cubic zero_rng = Inr ((0, 0, 1), zero_rng)"
    by (simp add: draw_parents_def random_call_def zero_rng_def cfg_cubic_def
        signed_modulo_int_def)
  have l: "3 \<le> INDIVIDUAL_LEN cfg_cubic" by (simp add: cfg_cubic_def)
  from crosspoint_between_first_and_last [OF d l, of ramp 8 "mem []"] l
  show ?thesis by (simp add: Let_def)
qed

text \<open>
  Claim C1. Each child is meant to be spliced from two parents of the fitter half,
  individuals \<open>0 .. POPULATION_SIZE div 2 - 1\<close>. The code draws the parent index in that
  range, turns it into an offset by multiplying with \<open>INDIVIDUAL_LEN\<close>, and multiplies by
  \<open>INDIVIDUAL_LEN\<close> once more when it reads the genes. With eight individuals of four
  genes and the draws 1, 0, 1 the first child, written at 16 .. 19, starts with the genes
  of individual 4 (read at 16 and 17), which is not among the fitter individuals 0 .. 3
  stored at 0 .. 15.
\<close>

theorem child_of_unfit_parent:
  "(case crossover cfg_eight ramp (mem []) rng_101 of
      Inl e \<Rightarrow> []
    | Inr (np, g') \<Rightarrow> map np [16, 17, 18, 19]) = [4, 4, 0, 0]"
  by (simp add: crossover_def cfg_eight_def rng_101_def draw_parents_def random_call_def
        signed_modulo_int_def write_children_at ramp_def)

subsection \<open>mutation\<close>

lemma sset_stl_subset: "sset (stl s) \<subseteq> sset s"
proof
  fix x assume "x \<in> sset (stl s)"
  then show "x \<in> sset s" by (rule stl_sset)
qed

lemma rand_call_bounded:
  assumes "rand_bounded cfg g" "rand_call g = (r, g')"
  shows "r \<le> RAND_MAX cfg \<and> rand_bounded cfg g'"
proof -
  have r: "r = shd (rand_src g)" and g': "rand_src g' = stl (rand_src g)"
    using assms(2) by (auto simp: rand_call_def)
  have "r \<le> RAND_MAX cfg"
    using assms(1) shd_sset [of "rand_src g"] unfolding rand_bounded_def r by blast
  moreover have "rand_bounded cfg g'"
    using assms(1) sset_stl_subset [of "rand_src g"] unfolding rand_bounded_def g' by blast
  ultimately show ?thesis by simp
qed

lemma frand_bounded:
  assumes "rand_bounded cfg g" "frand cfg g = (u, g')"
  shows "rand_bounded cfg g'"
proof -
  obtain r where r: "rand_call g = (r, g')"
    using assms(2) by (auto simp: frand_def split: prod.splits)
  show ?thesis using rand_call_bounded [OF assms(1) r] by simp
qed

lemma frand_unit:
  assumes "rand_bounded cfg g" "frand cfg g = (u, g')" "0 < RAND_MAX cfg"
  shows "0 \<le> u \<and> u \<le> 1"
proof -
  obtain r where r: "rand_call g = (r, g')"
    and u: "u = to_float (to_float (real r) / to_float (real (RAND_MAX cfg)))"
    using assms(2) by (auto simp: frand_def split: prod.splits)
  have "r \<le> RAND_MAX cfg"
    using rand_call_bounded [OF assms(1) r] by simp
  then have le: "to_float (real r) \<le> to_float (real (RAND_MAX cfg))"
    by (intro to_float_mono) simp
  have nn: "0 \<le> to_float (real r)" by (intro to_float_nonneg) simp
  have "to_float 1 \<le> to_float (real (RAND_MAX cfg))"
    using assms(3) by (intro to_float_mono) simp
  then have pos: "0 < to_float (real (RAND_MAX cfg))" by (simp add: to_float_small)
  have q: "0 \<le> to_float (real r) / to_float (real (RAND_MAX cfg))"
    "to_float (real r) / to_float (real (RAND_MAX cfg)) \<le> 1"
    using le nn pos by simp_all
  have "to_float 0 \<le> u" unfolding u using q(1) by (rule to_float_mono)
  moreover have "u \<le> to_float 1" unfolding u using q(2) by (rule to_float_mono)
  ultimately show ?thesis by (simp add: to_float_small)
qed

lemma stdrand_bounded_snd:
  assumes "stdrand cfg g = Some y"
  shows "rand_bounded cfg g \<longrightarrow> rand_bounded cfg (snd y)"
proof (rule stdrand.raw_induct
         [where P = "\<lambda>c h z. rand_bounded c h \<longrightarrow> rand_bounded c (snd z)", OF _ assms])
  fix stdrand' :: "config \<Rightarrow> rng \<Rightarrow> (real \<times> rng) option" and c h z
  assume IH: "\<And>c h z. stdrand' c h = Some z \<Longrightarrow> rand_bounded c h \<longrightarrow> rand_bounded c (snd z)"
    and hyp: "(let (U1, g1) = frand c h;
                   (U2, g2) = frand c g1;
                   V1 = to_float (to_double (- 1 + to_double (2 * U1)));
                   V2 = to_float (to_double (- 1 + to_double (2 * U2)));
                   S = to_float (to_double (to_double (V1\<^sup>2) + to_double (V2\<^sup>2)))
               in if S \<ge> 1 then stdrand' c g2
                  else Some (to_float (to_double (V1 * to_double (sqrt (to_double
                               (to_double (- 2 * to_float (ln S)) / S))))), g2)) = Some z"
  show "rand_bounded c h \<longrightarrow> rand_bounded c (snd z)"
  proof
    assume b: "rand_bounded c h"
    obtain U1 g1 where f1: "frand c h = (U1, g1)" by (cases "frand c h")
    obtain U2 g2 where f2: "frand c g1 = (U2, g2)" by (cases "frand c g1")
    have b2: "rand_bounded c g2"
      using frand_bounded [OF frand_bounded [OF b f1] f2] .
    define V1 where "V1 = to_float (to_double (- 1 + to_double (2 * U1)))"
    define V2 where "V2 = to_float (to_double (- 1 + to_double (2 * U2)))"
    define S where "S = to_float (to_double (to_double (V1\<^sup>2) + to_double (V2\<^sup>2)))"
    show "rand_bounded c (snd z)"
    proof (cases "1 \<le> S")
      case True
      then have "stdrand' c g2 = Some z"
        using hyp by (simp add: f1 f2 Let_def S_def V1_def V2_def)
      then show ?thesis using IH b2 by blast
    next
      case False
      then have "snd z = g2"
        using hyp by (auto simp add: f1 f2 Let_def S_def V1_def V2_def)
      then show ?thesis using b2 by simp
    qed
  qed
qed

lemma stdrand_bounded:
  assumes "stdrand cfg g = Some (x, g')" "rand_bounded cfg g"
  shows "rand_bounded cfg g'"
  using stdrand_bounded_snd [OF assms(1)] assms(2) by simp

lemma nrand_bounded:
  assumes "nrand cfg mu sigma g = Some (x, g')" "rand_bounded cfg g"
  shows "rand_bounded cfg g'"
proof -
  obtain X where "stdrand cfg g = Some (X, g')"
    using assms(1) by (auto simp: nrand_def split: option.splits)
  then show ?thesis using stdrand_bounded assms(2) by blast
qed

text \<open>
  One run of the inner loop: the genes outside the visited ones keep their values, and a
  gene either keeps its value or becomes the rounded sum of its value and an amount of
  magnitude at most the constant \<open>0.01\<close>.
\<close>

lemma gene_loop_frame:
  assumes "gene_loop cfg i m js ind g = Some (ind', g')"
    and "rand_bounded cfg g" and "0 < RAND_MAX cfg" and "distinct js"
  shows "rand_bounded cfg g'
         \<and> (\<forall>x. (\<forall>j\<in>set js. x \<noteq> i * INDIVIDUAL_LEN cfg + j) \<longrightarrow> ind' x = ind x)
         \<and> (\<forall>x. ind' x = ind x
                 \<or> (\<exists>d. \<bar>d\<bar> \<le> to_double 0.01 \<and> ind' x = to_float (to_double (ind x + d))))"
  using assms
proof (induction js arbitrary: ind g)
  case Nil
  then show ?case by simp
next
  case (Cons j js)
  let ?idx = "i * INDIVIDUAL_LEN cfg + j"
  obtain x g1 where n: "nrand cfg (mu_genes cfg) (sigma_genes cfg) g = Some (x, g1)"
    using Cons.prems(1) by (auto simp: Let_def split: option.splits)
  have b1: "rand_bounded cfg g1" using nrand_bounded [OF n Cons.prems(2)] .
  have dj: "distinct js" and jn: "j \<notin> set js" using Cons.prems(4) by simp_all
  show ?case
  proof (cases "x < to_float (real_of_int m)")
    case False
    then have rec: "gene_loop cfg i m js ind g1 = Some (ind', g')"
      using Cons.prems(1) n by (simp add: Let_def)
    from Cons.IH [OF rec b1 Cons.prems(3) dj] show ?thesis by simp
  next
    case True
    obtain u g2 where f: "frand cfg g1 = (u, g2)" by (cases "frand cfg g1")
    define d where "d = to_double (to_double 0.01 * to_float (to_float (2 * u) - 1))"
    define v where "v = to_float (to_double (ind ?idx + d))"
    have u: "0 \<le> u" "u \<le> 1" using frand_unit [OF b1 f Cons.prems(3)] by simp_all
    have d: "\<bar>d\<bar> \<le> to_double 0.01" unfolding d_def using u by (rule mutation_step_bound)
    have b2: "rand_bounded cfg g2" using frand_bounded [OF b1 f] .
    have rec: "gene_loop cfg i m js (ind(?idx := v)) g2 = Some (ind', g')"
      using Cons.prems(1) n True f by (simp add: Let_def d_def v_def)
    from Cons.IH [OF rec b2 Cons.prems(3) dj]
    have g': "rand_bounded cfg g'"
      and out: "\<And>y. (\<forall>k\<in>set js. y \<noteq> i * INDIVIDUAL_LEN cfg + k) \<Longrightarrow>
                   ind' y = (ind(?idx := v)) y"
      and near: "\<And>y. ind' y = (ind(?idx := v)) y
                   \<or> (\<exists>e. \<bar>e\<bar> \<le> to_double 0.01
                          \<and> ind' y = to_float (to_double ((ind(?idx := v)) y + e)))"
      by blast+
    have at: "ind' ?idx = v"
      using out [of ?idx] jn by auto
    have frame: "ind' y = ind y" if "\<forall>k\<in>set (j # js). y \<noteq> i * INDIVIDUAL_LEN cfg + k" for y
      using out [of y] that by simp
    have close: "ind' y = ind y
                 \<or> (\<exists>e. \<bar>e\<bar> \<le> to_double 0.01 \<and> ind' y = to_float (to_double (ind y + e)))" for y
    proof (cases "y = ?idx")
      case True
      then show ?thesis using at d unfolding v_def by blast
    next
      case False
      then show ?thesis using near [of y] by simp
    qed
    show ?thesis using g' frame close by blast
  qed
qed

lemma individual_loop_frame:
  assumes "individual_loop cfg is ind g = Some (ind', g')"
    and "rand_bounded cfg g" and "0 < RAND_MAX cfg" and "distinct is"
  shows "rand_bounded cfg g'
         \<and> (\<forall>x. (\<forall>i\<in>set is. \<forall>j<INDIVIDUAL_LEN cfg. x \<noteq> i * INDIVIDUAL_LEN cfg + j)
                 \<longrightarrow> ind' x = ind x)
         \<and> (\<forall>x. ind' x = ind x
                 \<or> (\<exists>d. \<bar>d\<bar> \<le> to_double 0.01 \<and> ind' x = to_float (to_double (ind x + d))))"
  using assms
proof (induction "is" arbitrary: ind g)
  case Nil
  then show ?case by simp
next
  case (Cons i "is")
  let ?L = "INDIVIDUAL_LEN cfg"
  obtain x g1 where n: "nrand cfg (mu_individuals cfg) (sigma_individuals cfg) g = Some (x, g1)"
    using Cons.prems(1) by (auto split: option.splits)
  obtain ind1 g2 where gl: "gene_loop cfg i (c_trunc x) [0..<?L] ind g1 = Some (ind1, g2)"
    using Cons.prems(1) n by (auto split: option.splits)
  have rec: "individual_loop cfg is ind1 g2 = Some (ind', g')"
    using Cons.prems(1) n gl by simp
  have b1: "rand_bounded cfg g1" using nrand_bounded [OF n Cons.prems(2)] .
  from gene_loop_frame [OF gl b1 Cons.prems(3)]
  have b2: "rand_bounded cfg g2"
    and out1: "\<And>y. (\<forall>j<?L. y \<noteq> i * ?L + j) \<Longrightarrow> ind1 y = ind y"
    and near1: "\<And>y. ind1 y = ind y
                  \<or> (\<exists>d. \<bar>d\<bar> \<le> to_double 0.01 \<and> ind1 y = to_float (to_double (ind y + d)))"
    by auto
  have di: "distinct is" and ii: "i \<notin> set is" using Cons.prems(4) by simp_all
  from Cons.IH [OF rec b2 Cons.prems(3) di]
  have g': "rand_bounded cfg g'"
    and out: "\<And>y. (\<forall>k\<in>set is. \<forall>j<?L. y \<noteq> k * ?L + j) \<Longrightarrow> ind' y = ind1 y"
    and near: "\<And>y. ind' y = ind1 y
                 \<or> (\<exists>d. \<bar>d\<bar> \<le> to_double 0.01 \<and> ind' y = to_float (to_double (ind1 y + d)))"
    by blast+
  have frame: "ind' y = ind y" if "\<forall>k\<in>set (i # is). \<forall>j<?L. y \<noteq> k * ?L + j" for y
  proof -
    have "ind' y = ind1 y" using out [of y] that by simp
    moreover have "ind1 y = ind y" using out1 [of y] that by simp
    ultimately show ?thesis by simp
  qed
  have close: "ind' y = ind y
               \<or> (\<exists>d. \<bar>d\<bar> \<le> to_double 0.01 \<and> ind' y = to_float (to_double (ind y + d)))" for y
  proof (cases "\<exists>j<?L. y = i * ?L + j")
    case True
    then obtain j where j: "j < ?L" "y = i * ?L + j" by blast
    have "\<forall>k\<in>set is. \<forall>j'<?L. y \<noteq> k * ?L + j'"
    proof (intro ballI allI impI notI)
      fix k j' assume k: "k \<in> set is" and j': "j' < ?L" and e: "y = k * ?L + j'"
      from block_index_unique [of i ?L j k j'] j j' e have "i = k" by simp
      then show False using k ii by simp
    qed
    then have "ind' y = ind1 y" using out [of y] by simp
    then show ?thesis using near1 [of y] by simp
  next
    case False
    then have "ind1 y = ind y" using out1 [of y] by blast
    then show ?thesis using near [of y] by simp
  qed
  show ?case using g' frame close by blast
qed

text \<open>
  Claim C7, as the code has it. Whatever the population and the random draws (each
  \<open>rand()\<close> value at most \<open>RAND_MAX\<close>), a run of \<open>mutation\<close> that returns leaves every
  gene of individual 0 as it was, and every gene that it changes becomes the \<open>float\<close>
  nearest to the sum of its old value and an amount \<open>d\<close> whose magnitude is at most the
  \<open>double\<close> constant \<open>0.01\<close>. The change of the stored value is the amount together with
  the rounding of the sum.
\<close>

theorem mutation_keeps_first_individual:
  assumes "mutation cfg individuals g = Some (individuals', g')"
    and "0 < RAND_MAX cfg"
    and "\<forall>r\<in>sset (rand_src g). r \<le> RAND_MAX cfg"
  shows "(\<forall>j<INDIVIDUAL_LEN cfg. individuals' j = individuals j)
         \<and> (\<forall>idx. individuals' idx = individuals idx
                   \<or> (\<exists>d. \<bar>d\<bar> \<le> to_double 0.01
                          \<and> individuals' idx = to_float (to_double (individuals idx + d))))"
proof -
  have b: "rand_bounded cfg g" using assms(3) by (simp add: rand_bounded_def)
  from individual_loop_frame [OF assms(1) [unfolded mutation_def] b assms(2)]
  have out: "\<And>y. (\<forall>i\<in>set [1..<POPULATION_SIZE cfg]. \<forall>j<INDIVIDUAL_LEN cfg.
                       y \<noteq> i * INDIVIDUAL_LEN cfg + j) \<Longrightarrow> individuals' y = individuals y"
    and near: "\<And>y. individuals' y = individuals y
                 \<or> (\<exists>d. \<bar>d\<bar> \<le> to_double 0.01
                        \<and> individuals' y = to_float (to_double (individuals y + d)))"
    by auto
  have first: "individuals' j = individuals j" if "j < INDIVIDUAL_LEN cfg" for j
  proof (rule out, intro ballI allI impI notI)
    fix i j' assume i: "i \<in> set [1..<POPULATION_SIZE cfg]" and j': "j' < INDIVIDUAL_LEN cfg"
      and e: "j = i * INDIVIDUAL_LEN cfg + j'"
    from block_index_unique [of 0 "INDIVIDUAL_LEN cfg" j i j'] that j' e have "0 = i" by simp
    then show False using i by simp
  qed
  show ?thesis using first near by blast
qed

text \<open>
  With the first two values of \<open>rand()\<close> equal to 1610612736 the rejection loop of
  \<open>stdrand\<close> leaves at its first round; with a deviation of 0 the normal deviate is its
  mean.
\<close>

lemma rand_call_zero_rng: "rand_call zero_rng = (1610612736, zero_rng)"
  by (simp add: rand_call_def zero_rng_def)

lemma frand_head:
  "frand cfg g = (to_float (to_float (real (shd (rand_src g))) / to_float (real (RAND_MAX cfg))),
                  g\<lparr>rand_src := stl (rand_src g)\<rparr>)"
  by (simp add: frand_def rand_call_def)

lemma frand_three_quarters:
  assumes "RAND_MAX cfg = 2147483647" "shd (rand_src g) = 1610612736"
  shows "frand cfg g = (3 / 4, g\<lparr>rand_src := stl (rand_src g)\<rparr>)"
  unfolding frand_head assms by (simp add: to_float_rand_values to_float_small)

lemma frand_one:
  assumes "RAND_MAX cfg = 2147483647" "shd (rand_src g) = 2147483647"
  shows "frand cfg g = (1, g\<lparr>rand_src := stl (rand_src g)\<rparr>)"
  unfolding frand_head assms by (simp add: to_float_rand_values to_float_small)

lemma frand_zero_rng:
  "RAND_MAX cfg = 2147483647 \<Longrightarrow> frand cfg zero_rng = (3 / 4, zero_rng)"
  using frand_three_quarters [of cfg zero_rng] by (simp add: zero_rng_def)

lemma stdrand_inside:
  assumes "RAND_MAX cfg = 2147483647"
    and "shd (rand_src g) = 1610612736" and "shd (stl (rand_src g)) = 1610612736"
  shows "\<exists>X. stdrand cfg g = Some (X, g\<lparr>rand_src := stl (stl (rand_src g))\<rparr>)"
proof -
  let ?g1 = "g\<lparr>rand_src := stl (rand_src g)\<rparr>"
  let ?g2 = "g\<lparr>rand_src := stl (stl (rand_src g))\<rparr>"
  have f1: "frand cfg g = (3 / 4, ?g1)"
    using frand_three_quarters [OF assms(1,2)] .
  have f2: "frand cfg ?g1 = (3 / 4, ?g2)"
    using frand_three_quarters [OF assms(1), of ?g1] assms(3) by simp
  have V: "to_float (to_double (- 1 + to_double (2 * (3 / 4)))) = 1 / 2"
    by (simp add: to_float_small to_double_small)
  have S: "to_float (to_double (to_double ((1 / 2)\<^sup>2) + to_double ((1 / 2)\<^sup>2))) = 1 / 2"
    by (simp add: to_float_small to_double_small power2_eq_square)
  have inside: "\<not> (1::real) \<le> 1 / 2" by simp
  have "stdrand cfg g =
          Some (to_float (to_double (1 / 2 * to_double (sqrt (to_double
                  (to_double (- 2 * to_float (ln (1 / 2))) / (1 / 2)))))), ?g2)"
    by (subst stdrand.simps) (simp only: f1 f2 Let_def prod.case V S inside if_False)
  then show ?thesis by blast
qed

lemma nrand_inside:
  assumes "RAND_MAX cfg = 2147483647"
    and "shd (rand_src g) = 1610612736" and "shd (stl (rand_src g)) = 1610612736"
  shows "nrand cfg mu 0 g = Some (to_float (to_float mu), g\<lparr>rand_src := stl (stl (rand_src g))\<rparr>)"
  using stdrand_inside [OF assms] by (auto simp: nrand_def to_float_small)

lemma nrand_zero_rng:
  assumes "RAND_MAX cfg = 2147483647"
  shows "nrand cfg mu 0 zero_rng = Some (to_float (to_float mu), zero_rng)"
  using nrand_inside [OF assms, of zero_rng mu] by (simp add: zero_rng_def)

text \<open>
  The roundings met when \<open>frand()\<close> is 3/4 or 1: the constant \<open>0.01\<close> and its half as
  \<open>double\<close>, and the sums with the genes 3 and 5.
\<close>

lemma mutation_amounts:
  "to_double (5764607523034235 / 576460752303423488) = 5764607523034235 / 576460752303423488"
  "to_double (5764607523034235 / 1152921504606846976) = 5764607523034235 / 1152921504606846976"
  "to_double (3464529121343575163 / 1152921504606846976) = 3383329220062085 / 1125899906842624"
  "to_float (3383329220062085 / 1125899906842624) = 3150971 / 1048576"
  "to_double (2888068369040151675 / 576460752303423488) = 2820379266640773 / 562949953421312"
  "to_float (2820379266640773 / 562949953421312) = 2626683 / 524288"
proof -
  show "to_double (5764607523034235 / 576460752303423488) = 5764607523034235 / 576460752303423488"
    using to_double_dyadic [of 5764607523034235 59] by simp
  show "to_double (5764607523034235 / 1152921504606846976) = 5764607523034235 / 1152921504606846976"
    using to_double_dyadic [of 5764607523034235 60] by simp
  show "to_double (3464529121343575163 / 1152921504606846976) = 3383329220062085 / 1125899906842624"
    unfolding to_double_def
    by (subst round_to_eval [of _ 1]) (simp_all add: round_half_even_def powr_minus)
  show "to_float (3383329220062085 / 1125899906842624) = 3150971 / 1048576"
    unfolding to_float_def
    by (subst round_to_eval [of _ 1]) (simp_all add: round_half_even_def powr_minus)
  show "to_double (2888068369040151675 / 576460752303423488) = 2820379266640773 / 562949953421312"
    unfolding to_double_def
    by (subst round_to_eval [of _ 2]) (simp_all add: round_half_even_def powr_minus)
  show "to_float (2820379266640773 / 562949953421312) = 2626683 / 524288"
    unfolding to_float_def
    by (subst round_to_eval [of _ 2]) (simp_all add: round_half_even_def powr_minus)
qed

text \<open>
  Two individuals of two genes, every gene of the second one mutated with \<open>frand()\<close>
  equal to 3/4: individual 0 keeps its genes 1 and 2, and the gene 3 becomes the \<open>float\<close>
  \<open>3150971 / 1048576\<close>.
\<close>

theorem mutation_keeps_first_individual_witness:
  "0 < RAND_MAX cfg_mut
   \<and> (\<exists>individuals' g'.
         mutation cfg_mut (mem [1, 2, 3, 4]) zero_rng = Some (individuals', g')
         \<and> individuals' 0 = 1 \<and> individuals' 1 = 2
         \<and> individuals' 2 = 3150971 / 1048576)"
proof -
  have r: "RAND_MAX cfg_mut = 2147483647" by (simp add: cfg_mut_def)
  have pos: "0 < RAND_MAX cfg_mut" using r by simp
  have bounded: "\<forall>r\<in>sset (rand_src zero_rng). r \<le> RAND_MAX cfg_mut"
    by (simp add: zero_rng_def cfg_mut_def)
  have run: "\<exists>individuals'.
               mutation cfg_mut (mem [1, 2, 3, 4]) zero_rng = Some (individuals', zero_rng)
               \<and> individuals' 2 = 3150971 / 1048576"
    using nrand_zero_rng [OF r] frand_zero_rng [OF r]
    by (simp add: mutation_def cfg_mut_def upt_rec c_trunc_def mem_def to_float_small Let_def
          mutation_amounts to_double_hundredth)
  then obtain individuals' where
    m: "mutation cfg_mut (mem [1, 2, 3, 4]) zero_rng = Some (individuals', zero_rng)"
    and two: "individuals' 2 = 3150971 / 1048576"
    by blast
  from mutation_keeps_first_individual [OF m pos bounded]
  have "\<forall>j<INDIVIDUAL_LEN cfg_mut. individuals' j = mem [1, 2, 3, 4] j"
    by blast
  then have "individuals' 0 = 1" "individuals' 1 = 2"
    by (simp_all add: cfg_mut_def mem_def)
  then show ?thesis using pos m two by blast
qed

text \<open>
  The change of a stored gene can exceed 0.01. When \<open>frand()\<close> returns 1 for the gene 5,
  the amount added is the \<open>double\<close> constant \<open>0.01\<close>, and the sum is stored as the \<open>float\<close>
  \<open>2626683 / 524288\<close>, which is 5 + 0.0100002289: no value of \<open>[-0.01, 0.01]\<close> added to 5
  gives it.
\<close>

theorem mutation_step_exceeds_hundredth:
  "\<exists>individuals' g'.
      mutation cfg_mut (mem [1, 2, 5, 4]) rng_full = Some (individuals', g')
      \<and> individuals' 2 = 2626683 / 524288
      \<and> 0.01 < individuals' 2 - mem [1, 2, 5, 4] 2"
proof -
  have r: "RAND_MAX cfg_mut = 2147483647" by (simp add: cfg_mut_def)
  have run: "\<exists>individuals' g'.
               mutation cfg_mut (mem [1, 2, 5, 4]) rng_full = Some (individuals', g')
               \<and> individuals' 2 = 2626683 / 524288"
    using nrand_inside [OF r] frand_one [OF r] frand_three_quarters [OF r]
    by (simp add: mutation_def cfg_mut_def rng_full_def upt_rec c_trunc_def mem_def
          to_float_small Let_def mutation_amounts to_double_hundredth)
  then show ?thesis by (auto simp: mem_def)
qed

subsection \<open>selection\<close>

lemma mset_insert_before: "mset (insert_before cmp x ys) = add_mset x (mset ys)"
  by (induction ys) simp_all

lemma set_insert_before: "set (insert_before cmp x ys) = insert x (set ys)"
  by (induction ys) auto

lemma sorted_insert_before:
  "sorted (map fst ys) \<Longrightarrow> sorted (map fst (insert_before myCmpPair x ys))"
  by (induction ys) (auto simp: myCmpPair_def set_insert_before)

lemma sorted_wrt_myCmpPair:
  "sorted_wrt (\<lambda>a b. \<not> myCmpPair b a) ps = sorted (map fst ps)"
  by (simp add: sorted_wrt_map myCmpPair_def not_less)

lemma from_back_contract: "std_sort_contract insertion_sort_from_back"
proof -
  have m: "mset (foldr (insert_before myCmpPair) ps []) = mset ps" for ps :: "(real \<times> nat) list"
    by (induction ps) (simp_all add: mset_insert_before)
  have s: "sorted (map fst (foldr (insert_before myCmpPair) ps []))" for ps :: "(real \<times> nat) list"
    by (induction ps) (simp_all add: sorted_insert_before)
  show ?thesis
    unfolding std_sort_contract_def insertion_sort_from_back_def sorted_wrt_myCmpPair
    using m s by blast
qed

lemma reorder_fold_at:
  "fold (\<lambda>i np. fold (\<lambda>j np'. np'(i * L + j := src (sel i * L + j))) [0..<L] np) [0..<n] new x =
     (if x < n * L then src (sel (x div L) * L + x mod L) else new x)"
proof (induction n)
  case 0
  show ?case by simp
next
  case (Suc n)
  define G where "G = fold (\<lambda>i np. fold (\<lambda>j np'. np'(i * L + j := src (sel i * L + j))) [0..<L] np) [0..<n] new"
  have step: "fold (\<lambda>i np. fold (\<lambda>j np'. np'(i * L + j := src (sel i * L + j))) [0..<L] np) [0..<Suc n] new x
        = (if n * L \<le> x \<and> x < n * L + L then src (sel n * L + (x - n * L)) else G x)"
    by (simp add: fold_upd_block G_def)
  have IH: "G x = (if x < n * L then src (sel (x div L) * L + x mod L) else new x)"
    unfolding G_def by (rule Suc)
  show ?case
  proof (cases "n * L \<le> x \<and> x < n * L + L")
    case True
    then show ?thesis unfolding step using block_div_mod [of n L x] by simp
  next
    case False
    then show ?thesis unfolding step IH by auto
  qed
qed

lemma reorder_at:
  assumes "i < POPULATION_SIZE cfg" "j < INDIVIDUAL_LEN cfg"
  shows "reorder cfg src pairs new (i * INDIVIDUAL_LEN cfg + j)
           = src (snd (pairs ! i) * INDIVIDUAL_LEN cfg + j)"
proof -
  have "i * INDIVIDUAL_LEN cfg + j < Suc i * INDIVIDUAL_LEN cfg" using assms(2) by simp
  also have "\<dots> \<le> POPULATION_SIZE cfg * INDIVIDUAL_LEN cfg"
    using assms(1) by (intro mult_le_mono1) simp
  finally have lt: "i * INDIVIDUAL_LEN cfg + j < POPULATION_SIZE cfg * INDIVIDUAL_LEN cfg" .
  show ?thesis
    unfolding reorder_def
    using lt assms(2)
    by (simp add: reorder_fold_at [where sel = "\<lambda>i. snd (pairs ! i)"])
qed

lemma selection_individual:
  assumes "i < POPULATION_SIZE cfg"
  shows "individual cfg (selection srt cfg src fit new) i
           = individual cfg src (snd (srt myCmpPair (make_pairs cfg fit) ! i))"
  unfolding individual_def selection_def using assms by (simp add: reorder_at)


lemma sorted_pairs_facts:
  assumes "std_sort_contract srt" and "ps = srt myCmpPair (make_pairs cfg fit)"
  shows "length ps = POPULATION_SIZE cfg"
    and "mset (map snd ps) = mset [0..<POPULATION_SIZE cfg]"
    and "map fst ps = map fit (map snd ps)"
    and "sorted (map fst ps)"
proof -
  have m: "mset ps = mset (make_pairs cfg fit)"
    and s: "sorted_wrt (\<lambda>a b. \<not> myCmpPair b a) ps"
    using assms(1) unfolding std_sort_contract_def assms(2) by blast+
  have "length ps = length (make_pairs cfg fit)"
    using m by (rule mset_eq_length)
  then show "length ps = POPULATION_SIZE cfg" by (simp add: make_pairs_def)
  have "mset (map snd ps) = mset (map snd (make_pairs cfg fit))"
    using m by (metis mset_map)
  then show "mset (map snd ps) = mset [0..<POPULATION_SIZE cfg]"
    by (simp add: make_pairs_def comp_def)
  have "set ps = set (make_pairs cfg fit)" using m by (rule mset_eq_setD)
  then have "\<forall>p\<in>set ps. fst p = fit (snd p)" by (auto simp: make_pairs_def)
  then show "map fst ps = map fit (map snd ps)" by simp
  show "sorted (map fst ps)" using s by (simp add: sorted_wrt_myCmpPair)
qed

lemma selected_order_facts:
  assumes "std_sort_contract srt"
  shows "length (selected_order srt cfg fit) = POPULATION_SIZE cfg"
    and "mset (selected_order srt cfg fit) = mset [0..<POPULATION_SIZE cfg]"
    and "sorted (map fit (selected_order srt cfg fit))"
proof -
  let ?ps = "srt myCmpPair (make_pairs cfg fit)"
  have len: "length ?ps = POPULATION_SIZE cfg"
    and perm: "mset (map snd ?ps) = mset [0..<POPULATION_SIZE cfg]"
    and keys: "map fst ?ps = map fit (map snd ?ps)" and srtd: "sorted (map fst ?ps)"
    using sorted_pairs_facts [OF assms refl, of cfg fit] by simp_all
  show "length (selected_order srt cfg fit) = POPULATION_SIZE cfg"
    using len by (simp add: selected_order_def)
  show "mset (selected_order srt cfg fit) = mset [0..<POPULATION_SIZE cfg]"
    using perm by (simp add: selected_order_def)
  show "sorted (map fit (selected_order srt cfg fit))"
    using srtd keys by (simp add: selected_order_def)
qed

lemma selected_first_least:
  assumes "std_sort_contract srt" and "k < POPULATION_SIZE cfg"
  shows "selected_order srt cfg fit ! 0 < POPULATION_SIZE cfg"
    and "fit (selected_order srt cfg fit ! 0) \<le> fit k"
proof -
  let ?pi = "selected_order srt cfg fit"
  note f = selected_order_facts [OF assms(1), where cfg = cfg and fit = fit]
  have pos: "0 < length ?pi" using assms(2) f(1) by simp
  have "?pi ! 0 \<in> set ?pi" using pos by simp
  then show "?pi ! 0 < POPULATION_SIZE cfg"
    using mset_eq_setD [OF f(2)] by simp
  have "k \<in> set ?pi"
    using assms(2) mset_eq_setD [OF f(2)] by simp
  then obtain m where m: "m < length ?pi" "?pi ! m = k"
    by (auto simp: in_set_conv_nth)
  have "map fit ?pi ! 0 \<le> map fit ?pi ! m"
    using f(3) m(1) by (intro sorted_nth_mono) simp_all
  moreover have "map fit ?pi ! 0 = fit (?pi ! 0)" using pos by simp
  ultimately show "fit (?pi ! 0) \<le> fit k" using m by simp
qed

lemma selection_individual_order:
  assumes "std_sort_contract srt" and "i < POPULATION_SIZE cfg"
  shows "individual cfg (selection srt cfg src fit new) i
           = individual cfg src (selected_order srt cfg fit ! i)"
  using selection_individual [OF assms(2), of srt src fit new] assms(2)
    selected_order_facts(1) [OF assms(1), where cfg = cfg and fit = fit]
  by (simp add: selected_order_def)

text \<open>
  Claim C5, as the code guarantees it. With any sorting function that meets the contract
  of \<open>std::sort\<close>, selection lays out the old individuals in an order that is a
  permutation of \<open>0 .. POPULATION_SIZE - 1\<close>: the new population holds the same
  individuals as the old one (as a multiset), the fitness values are non-decreasing along
  the new positions, and position 0 holds an individual of least fitness. Nothing is
  said about the order of individuals with equal fitness.
\<close>

theorem selection_sorts_a_permutation:
  assumes "std_sort_contract srt"
  shows "mset (selected_order srt cfg fit) = mset [0..<POPULATION_SIZE cfg]
         \<and> (\<forall>i<POPULATION_SIZE cfg.
               individual cfg (selection srt cfg src fit new) i
                 = individual cfg src (selected_order srt cfg fit ! i))
         \<and> mset (individuals_of cfg (selection srt cfg src fit new)) = mset (individuals_of cfg src)
         \<and> sorted (map fit (selected_order srt cfg fit))
         \<and> (\<forall>k<POPULATION_SIZE cfg. fit (selected_order srt cfg fit ! 0) \<le> fit k)"
proof -
  let ?n = "POPULATION_SIZE cfg"
  let ?pi = "selected_order srt cfg fit"
  note f = selected_order_facts [OF assms, where cfg = cfg and fit = fit]
  have ind: "individual cfg (selection srt cfg src fit new) i = individual cfg src (?pi ! i)"
    if "i < ?n" for i
    using selection_individual_order [OF assms that] .
  have "individuals_of cfg (selection srt cfg src fit new) = map (individual cfg src) ?pi"
    using f(1) ind by (intro nth_equalityI) (simp_all add: individuals_of_def)
  then have "mset (individuals_of cfg (selection srt cfg src fit new))
               = image_mset (individual cfg src) (mset ?pi)"
    by simp
  also have "\<dots> = mset (individuals_of cfg src)"
    unfolding f(2) by (simp add: individuals_of_def)
  finally have same: "mset (individuals_of cfg (selection srt cfg src fit new))
                        = mset (individuals_of cfg src)" .
  have least: "fit (?pi ! 0) \<le> fit k" if "k < ?n" for k
    using selected_first_least(2) [OF assms that] .
  show ?thesis using f(2,3) ind same least by blast
qed

theorem selection_sorts_a_permutation_witness:
  "std_sort_contract insertion_sort_from_back
   \<and> mset (individuals_of cfg_pair
             (selection insertion_sort_from_back cfg_pair (mem [7, 9]) (mem [2, 1]) (mem [])))
       = mset (individuals_of cfg_pair (mem [7, 9]))
   \<and> sorted (map (mem [2, 1]) (selected_order insertion_sort_from_back cfg_pair (mem [2, 1])))"
  using selection_sorts_a_permutation
          [OF from_back_contract, of cfg_pair "mem [2, 1]" "mem [7, 9]" "mem []"]
        from_back_contract
  by blast


text \<open>
  The order of individuals of equal fitness is not kept. With twenty individuals that all
  have the fitness 1, \<open>std::sort\<close> of the GNU library swaps the element in the middle to
  the front as the pivot, and the partition then exchanges the others pairwise from both
  ends: individual 10 comes first, followed by 19, 18 and so on, where a stable order
  would start with the individuals 0 and 1. (Up to sixteen elements this \<open>std::sort\<close> is
  an insertion sort, which keeps the order of equal elements.)
\<close>

theorem std_sort_reorders_ties:
  "selected_order std_sort cfg_twenty (\<lambda>i. 1)
     = [10, 19, 18, 17, 16, 15, 14, 13, 12, 11, 0, 9, 8, 7, 6, 5, 4, 3, 2, 1]
   \<and> individual cfg_twenty (selection std_sort cfg_twenty ramp (\<lambda>i. 1) (mem [])) 0
       = [10, 10, 10, 10]
   \<and> individual cfg_twenty (selection std_sort cfg_twenty ramp (\<lambda>i. 1) (mem [])) 1
       = [19, 19, 19, 19]
   \<and> individual cfg_twenty ramp 0 = [0, 0, 0, 0]
   \<and> individual cfg_twenty ramp 1 = [1, 1, 1, 1]"
proof -
  have ps: "std_sort myCmpPair (map (\<lambda>i. (1, i)) [0..<20])
              = [(1, 10), (1, 19), (1, 18), (1, 17), (1, 16), (1, 15), (1, 14), (1, 13), (1, 12),
                 (1, 11), (1, 0), (1, 9), (1, 8), (1, 7), (1, 6), (1, 5), (1, 4), (1, 3), (1, 2),
                 (1, 1)]"
    by code_simp
  have mp: "make_pairs cfg_twenty (\<lambda>i. 1) = map (\<lambda>i. (1, i)) [0..<20]"
    by (simp add: make_pairs_def cfg_twenty_def)
  have a: "selected_order std_sort cfg_twenty (\<lambda>i. 1)
             = [10, 19, 18, 17, 16, 15, 14, 13, 12, 11, 0, 9, 8, 7, 6, 5, 4, 3, 2, 1]"
    unfolding selected_order_def mp ps by simp
  have p: "POPULATION_SIZE cfg_twenty = 20" "INDIVIDUAL_LEN cfg_twenty = 4"
    by (simp_all add: cfg_twenty_def)
  have u: "[0..<4] = [0, 1, 2, 3]" by (simp add: upt_rec)
  have first: "individual cfg_twenty (selection std_sort cfg_twenty ramp (\<lambda>i. 1) (mem [])) 0
                 = individual cfg_twenty ramp 10"
    using selection_individual [of 0 cfg_twenty std_sort ramp "\<lambda>i. 1" "mem []"]
    unfolding mp ps by (simp add: p)
  have second: "individual cfg_twenty (selection std_sort cfg_twenty ramp (\<lambda>i. 1) (mem [])) 1
                  = individual cfg_twenty ramp 19"
    using selection_individual [of 1 cfg_twenty std_sort ramp "\<lambda>i. 1" "mem []"]
    unfolding mp ps by (simp add: p)
  have r: "individual cfg_twenty ramp k = [real k, real k, real k, real k]" for k
    by (simp add: individual_def p u ramp_def)
  show ?thesis
    unfolding first second a r by simp
qed

subsection \<open>One generation of the loop\<close>

lemma gene_loop_outside:
  assumes "gene_loop cfg i m js ind g = Some (ind', g')"
    and "\<forall>j\<in>set js. x \<noteq> i * INDIVIDUAL_LEN cfg + j"
  shows "ind' x = ind x"
  using assms
proof (induction js arbitrary: ind g)
  case Nil
  then show ?case by simp
next
  case (Cons j js)
  obtain y g1 where n: "nrand cfg (mu_genes cfg) (sigma_genes cfg) g = Some (y, g1)"
    using Cons.prems(1) by (auto simp: Let_def split: option.splits)
  have rest: "\<forall>k\<in>set js. x \<noteq> i * INDIVIDUAL_LEN cfg + k"
    and here: "x \<noteq> i * INDIVIDUAL_LEN cfg + j"
    using Cons.prems(2) by simp_all
  show ?case
  proof (cases "y < to_float (real_of_int m)")
    case False
    then have "gene_loop cfg i m js ind g1 = Some (ind', g')"
      using Cons.prems(1) n by (simp add: Let_def)
    then show ?thesis using Cons.IH rest by blast
  next
    case True
    obtain u g2 where f: "frand cfg g1 = (u, g2)" by (cases "frand cfg g1")
    let ?idx = "i * INDIVIDUAL_LEN cfg + j"
    let ?d = "to_double (to_double 0.01 * to_float (to_float (2 * u) - 1))"
    have "gene_loop cfg i m js (ind(?idx := to_float (to_double (ind ?idx + ?d)))) g2
            = Some (ind', g')"
      using Cons.prems(1) n True f by (simp add: Let_def)
    from Cons.IH [OF this rest] show ?thesis using here by simp
  qed
qed

lemma individual_loop_outside:
  assumes "individual_loop cfg is ind g = Some (ind', g')"
    and "\<forall>i\<in>set is. \<forall>j<INDIVIDUAL_LEN cfg. x \<noteq> i * INDIVIDUAL_LEN cfg + j"
  shows "ind' x = ind x"
  using assms
proof (induction "is" arbitrary: ind g)
  case Nil
  then show ?case by simp
next
  case (Cons i "is")
  obtain y g1 where n: "nrand cfg (mu_individuals cfg) (sigma_individuals cfg) g = Some (y, g1)"
    using Cons.prems(1) by (auto split: option.splits)
  obtain ind1 g2 where
    gl: "gene_loop cfg i (c_trunc y) [0..<INDIVIDUAL_LEN cfg] ind g1 = Some (ind1, g2)"
    using Cons.prems(1) n by (auto split: option.splits)
  have rec: "individual_loop cfg is ind1 g2 = Some (ind', g')"
    using Cons.prems(1) n gl by simp
  have "ind1 x = ind x"
    using gene_loop_outside [OF gl] Cons.prems(2) by simp
  moreover have "ind' x = ind1 x"
    using Cons.IH [OF rec] Cons.prems(2) by simp
  ultimately show ?case by simp
qed

lemma mutation_first_individual:
  assumes "mutation cfg ind g = Some (ind', g')" and "j < INDIVIDUAL_LEN cfg"
  shows "ind' j = ind j"
proof (rule individual_loop_outside [OF assms(1) [unfolded mutation_def]],
       intro ballI allI impI notI)
  fix i j' assume i: "i \<in> set [1..<POPULATION_SIZE cfg]" and j': "j' < INDIVIDUAL_LEN cfg"
    and e: "j = i * INDIVIDUAL_LEN cfg + j'"
  from block_index_unique [of 0 "INDIVIDUAL_LEN cfg" j i j'] assms(2) j' e have "0 = i" by simp
  then show False using i by simp
qed

lemma generation_parts:
  assumes "generation srt cfg points st = Some (Inr st')"
  obtains crossed g1 mutated g2 where
    "crossover cfg (population st) (newPopulation st) (gen st) = Inr (crossed, g1)"
    "mutation cfg crossed g1 = Some (mutated, g2)"
    "bestFitness st' = Some (fitness cfg mutated points (current_fitnesses st) 0)"
    "current_fitnesses st' = fitness cfg mutated points (current_fitnesses st)"
    "population st' = selection srt cfg mutated (fitness cfg mutated points (current_fitnesses st))
                        (population st)"
  using assms unfolding generation_def
  by (auto simp: Let_def split: sum.splits option.splits)

lemma generation_best_is_old_first:
  assumes "generation srt cfg points st = Some (Inr st')" and "2 \<le> POPULATION_SIZE cfg"
  shows "bestFitness st' = Some (point_loop cfg (population st) points 0)"
proof -
  from generation_parts [OF assms(1)] obtain crossed g1 mutated g2 where
    c: "crossover cfg (population st) (newPopulation st) (gen st) = Inr (crossed, g1)"
    and m: "mutation cfg crossed g1 = Some (mutated, g2)"
    and b: "bestFitness st' = Some (fitness cfg mutated points (current_fitnesses st) 0)"
    by metis
  have half: "1 \<le> POPULATION_SIZE cfg div 2" using assms(2) by simp
  have "mutated j = population st j" if "j < INDIVIDUAL_LEN cfg" for j
  proof -
    obtain h where h: "POPULATION_SIZE cfg div 2 = Suc h"
      using half by (cases "POPULATION_SIZE cfg div 2") simp_all
    have "j < POPULATION_SIZE cfg div 2 * INDIVIDUAL_LEN cfg"
      unfolding h using that by simp
    then have "crossed j = population st j" using crossover_copies_fittest [OF c] by simp
    then show ?thesis using mutation_first_individual [OF m that] by simp
  qed
  then have "individual cfg mutated 0 = individual cfg (population st) 0"
    by (simp add: individual_def)
  then have "point_loop cfg mutated points 0 = point_loop cfg (population st) points 0"
    by (rule point_loop_individual)
  then show ?thesis using b assms(2) by (simp add: fitness_eq)
qed

text \<open>
  Claim C3. Whenever two generations of the loop follow each other, the value of
  \<open>bestFitness\<close> after the second is at most the value after the first: the individual at
  index 0 is copied by crossover, skipped by mutation, and selection puts an individual
  of least fitness at index 0 for the next generation.
\<close>

theorem best_fitness_never_increases:
  assumes "std_sort_contract srt" and "2 \<le> POPULATION_SIZE cfg"
    and "generation srt cfg points st = Some (Inr st1)"
    and "generation srt cfg points st1 = Some (Inr st2)"
  shows "\<exists>b1 b2. bestFitness st1 = Some b1 \<and> bestFitness st2 = Some b2 \<and> b2 \<le> b1"
proof -
  from generation_parts [OF assms(3)] obtain crossed g1 mutated g2 where
    b1: "bestFitness st1 = Some (fitness cfg mutated points (current_fitnesses st) 0)"
    and p1: "population st1 = selection srt cfg mutated
               (fitness cfg mutated points (current_fitnesses st)) (population st)"
    by metis
  let ?cf = "fitness cfg mutated points (current_fitnesses st)"
  let ?w = "selected_order srt cfg ?cf ! 0"
  have pos: "0 < POPULATION_SIZE cfg" using assms(2) by simp
  have w: "?w < POPULATION_SIZE cfg" and least: "?cf ?w \<le> ?cf 0"
    using selected_first_least [OF assms(1) pos] by blast+
  have "individual cfg (population st1) 0 = individual cfg mutated ?w"
    unfolding p1 using selection_individual_order [OF assms(1) pos] .
  then have "point_loop cfg (population st1) points 0 = point_loop cfg mutated points ?w"
    by (rule point_loop_individual)
  also have "\<dots> = ?cf ?w" using w by (simp add: fitness_eq)
  finally have "point_loop cfg (population st1) points 0 \<le> ?cf 0" using least by simp
  moreover have "bestFitness st2 = Some (point_loop cfg (population st1) points 0)"
    using generation_best_is_old_first [OF assms(4) assms(2)] .
  ultimately show ?thesis using b1 by simp
qed



text \<open>
  Evaluation of a generation in which crossover always draws 0 and mutation changes
  nothing.
\<close>

lemma small_quiet_examples: "small_quiet cfg_cubic" "small_quiet cfg_no_points"
  by (simp_all add: small_quiet_def cfg_cubic_def cfg_no_points_def)

lemma draw_parents_quiet:
  assumes "small_quiet cfg"
  shows "draw_parents cfg zero_rng = Inr ((0, 0, 1), zero_rng)"
  using assms
  by (simp add: small_quiet_def draw_parents_def random_call_def zero_rng_def
        signed_modulo_int_def)

lemma crossover_quiet:
  assumes "small_quiet cfg"
  shows "crossover cfg old new zero_rng =
           Inr (write_children cfg old 8 0 0 1 (copy_fittest cfg old new), zero_rng)"
proof -
  have s: "POPULATION_SIZE cfg = 4" "INDIVIDUAL_LEN cfg = 4"
    using assms by (simp_all add: small_quiet_def)
  show ?thesis
    by (simp add: crossover_def draw_parents_quiet [OF assms] s)
qed

lemma gene_loop_quiet:
  assumes "nrand cfg (mu_genes cfg) (sigma_genes cfg) g = Some (x, g)"
    and "\<not> x < to_float (real_of_int m)"
  shows "gene_loop cfg i m js ind g = Some (ind, g)"
  using assms by (induction js) (simp_all add: Let_def)

lemma individual_loop_quiet:
  assumes "nrand cfg (mu_individuals cfg) (sigma_individuals cfg) g = Some (y, g)"
    and "nrand cfg (mu_genes cfg) (sigma_genes cfg) g = Some (x, g)"
    and "\<not> x < to_float (real_of_int (c_trunc y))"
  shows "individual_loop cfg is ind g = Some (ind, g)"
  using assms(1) gene_loop_quiet [OF assms(2,3)] by (induction "is") simp_all

lemma mutation_quiet:
  assumes "small_quiet cfg"
  shows "mutation cfg ind zero_rng = Some (ind, zero_rng)"
proof -
  have s: "mu_individuals cfg = 0" "sigma_individuals cfg = 0" "mu_genes cfg = 1"
    "sigma_genes cfg = 0" "RAND_MAX cfg = 2147483647"
    using assms by (simp_all add: small_quiet_def)
  have i: "nrand cfg (mu_individuals cfg) (sigma_individuals cfg) zero_rng = Some (0, zero_rng)"
    unfolding s(1,2) using nrand_zero_rng [OF s(5), of 0] by (simp add: to_float_small)
  have g: "nrand cfg (mu_genes cfg) (sigma_genes cfg) zero_rng = Some (1, zero_rng)"
    unfolding s(3,4) using nrand_zero_rng [OF s(5), of 1] by (simp add: to_float_small)
  have t: "\<not> 1 < to_float (real_of_int (c_trunc 0))" by (simp add: c_trunc_def to_float_small)
  show ?thesis unfolding mutation_def by (rule individual_loop_quiet [OF i g t])
qed

lemma generation_quiet:
  assumes "small_quiet cfg" and "gen st = zero_rng"
    and "crossed = write_children cfg (population st) 8 0 0 1
                     (copy_fittest cfg (population st) (newPopulation st))"
    and "cf = fitness cfg crossed points (current_fitnesses st)"
  shows "\<exists>st'. generation srt cfg points st = Some (Inr st')
               \<and> population st' = selection srt cfg crossed cf (population st)
               \<and> current_fitnesses st' = cf
               \<and> bestFitness st' = Some (cf 0)
               \<and> generationNumber st' = generationNumber st + 1
               \<and> gen st' = zero_rng"
  unfolding generation_def assms(2) crossover_quiet [OF assms(1)]
  by (simp add: mutation_quiet [OF assms(1)] Let_def assms(3,4))

lemma crossed_unranked:
  assumes "small_quiet cfg" and "x < 16"
  shows "write_children cfg (population st_unranked) 8 0 0 1
           (copy_fittest cfg (population st_unranked) (newPopulation st_unranked)) x
         = (if x = 0 \<or> x = 8 \<or> x = 12 then 1 else 0)"
proof -
  have s: "POPULATION_SIZE cfg = 4" "INDIVIDUAL_LEN cfg = 4"
    using assms(1) by (simp_all add: small_quiet_def)
  show ?thesis
    unfolding write_children_at copy_fittest_def fold_upd_upt s
    using assms(2)
    by (auto simp: st_unranked_def mem_def nth_Cons split: nat.splits)
qed

lemma score_at_origin:
  assumes "b (k * 4) = 0 \<or> b (k * 4) = 1"
  shows "point_loop cfg_cubic b (mem [0, 0]) k = b (k * 4)"
proof -
  have u: "[0..<4] = [0, Suc 0, Suc (Suc 0), Suc (Suc (Suc 0))]" by (simp add: upt_rec)
  show ?thesis
    using assms
    by (auto simp: point_loop_def point_step_def order_loop_def order_step_def cfg_cubic_def
          mem_def u to_float_small to_double_small)
qed

lemma unranked_first_generation:
  fixes crossed cf
  assumes "crossed = write_children cfg_cubic (population st_unranked) 8 0 0 1
                     (copy_fittest cfg_cubic (population st_unranked) (newPopulation st_unranked))"
    and "cf = fitness cfg_cubic crossed (mem [0, 0]) (current_fitnesses st_unranked)"
  shows "map cf [0, 1, 2, 3] = [1, 0, 1, 1]"
    and "map (selection insertion_sort_from_back cfg_cubic crossed cf (population st_unranked))
           [0, 1, 2, 3] = [0, 0, 0, 0]"
proof -
  note q = small_quiet_examples(1)
  have p: "POPULATION_SIZE cfg_cubic = 4" "INDIVIDUAL_LEN cfg_cubic = 4"
    by (simp_all add: cfg_cubic_def)
  have c: "crossed x = (if x = 0 \<or> x = 8 \<or> x = 12 then 1 else 0)" if "x < 16" for x
    unfolding assms(1) using crossed_unranked [OF q that] .
  have cf: "cf k = crossed (k * 4)" if "k < 4" for k
    unfolding assms(2) using that c [of "k * 4"] by (simp add: fitness_eq p score_at_origin)
  have cf0: "cf 0 = 1" and cf1: "cf 1 = 0" and cf2: "cf 2 = 1" and cf3: "cf 3 = 1"
    using cf [of 0] cf [of 1] cf [of 2] cf [of 3] c [of 0] c [of 4] c [of 8] c [of 12]
    by simp_all
  show "map cf [0, 1, 2, 3] = [1, 0, 1, 1]" using cf0 cf1 cf2 cf3 by simp
  have u: "[0..<4] = [0, 1, 2, 3]" by (simp add: upt_rec)
  have cf1': "cf (Suc 0) = 0" using cf1 by simp
  have ps: "insertion_sort_from_back myCmpPair (make_pairs cfg_cubic cf)
              = [(0, 1), (1, 0), (1, 2), (1, 3)]"
    by (simp add: insertion_sort_from_back_def make_pairs_def p u cf0 cf1' cf2 cf3 myCmpPair_def)
  have r: "selection insertion_sort_from_back cfg_cubic crossed cf (population st_unranked) j
             = crossed (4 + j)" if "j < 4" for j
    using reorder_at [of 0 cfg_cubic j crossed "[(0, 1), (1, 0), (1, 2), (1, 3)]"
            "population st_unranked"] that
    by (simp add: selection_def ps p)
  show "map (selection insertion_sort_from_back cfg_cubic crossed cf (population st_unranked))
           [0, 1, 2, 3] = [0, 0, 0, 0]"
    using r [of 0] r [of 1] r [of 2] r [of 3] c [of 4] c [of 5] c [of 6] c [of 7] by simp
qed

theorem best_fitness_never_increases_witness:
  "std_sort_contract insertion_sort_from_back \<and> 2 \<le> POPULATION_SIZE cfg_cubic
   \<and> (\<exists>st1 st2 b2.
         generation insertion_sort_from_back cfg_cubic (mem [0, 0]) st_unranked = Some (Inr st1)
         \<and> generation insertion_sort_from_back cfg_cubic (mem [0, 0]) st1 = Some (Inr st2)
         \<and> bestFitness st1 = Some 1 \<and> bestFitness st2 = Some b2 \<and> b2 \<le> 1)"
proof -
  define crossed where "crossed = write_children cfg_cubic (population st_unranked) 8 0 0 1
                     (copy_fittest cfg_cubic (population st_unranked) (newPopulation st_unranked))"
  define cf where "cf = fitness cfg_cubic crossed (mem [0, 0]) (current_fitnesses st_unranked)"
  have g: "gen st_unranked = zero_rng" by (simp add: st_unranked_def)
  from generation_quiet [OF small_quiet_examples(1) g crossed_def cf_def,
         of insertion_sort_from_back]
  obtain st1 where
    run1: "generation insertion_sort_from_back cfg_cubic (mem [0, 0]) st_unranked = Some (Inr st1)"
    and b1: "bestFitness st1 = Some (cf 0)" and g1: "gen st1 = zero_rng"
    by blast
  have one: "cf 0 = 1" using unranked_first_generation(1) [OF crossed_def cf_def] by simp
  from generation_quiet [OF small_quiet_examples(1) g1 refl refl, of insertion_sort_from_back]
  obtain st2 where
    run2: "generation insertion_sort_from_back cfg_cubic (mem [0, 0]) st1 = Some (Inr st2)"
    by blast
  have two: "2 \<le> POPULATION_SIZE cfg_cubic" by (simp add: cfg_cubic_def)
  from best_fitness_never_increases [OF from_back_contract two run1 run2]
  obtain c1 c2 where "bestFitness st1 = Some c1" "bestFitness st2 = Some c2" "c2 \<le> c1"
    by blast
  then have "bestFitness st2 = Some c2 \<and> c2 \<le> 1" using b1 one by simp
  then show ?thesis using from_back_contract two run1 run2 b1 one by auto
qed


text \<open>
  Claim C2. The loop is meant to record as \<open>bestFitness\<close> the least fitness of the
  generation. The code reads \<open>current_fitnesses[0]\<close> after the fitness evaluation and
  before selection has reordered the population. In the first generation from the
  unranked state the fitness table is \<open>[1, 0, 1, 1]\<close>: \<open>bestFitness\<close> becomes 1, the
  fitness of the individual at index 0, while the least fitness is 0, that of individual
  1, which selection then moves to the front.
\<close>

theorem best_fitness_read_before_selection:
  "\<exists>st'. generation insertion_sort_from_back cfg_cubic (mem [0, 0]) st_unranked = Some (Inr st')
         \<and> bestFitness st' = Some 1
         \<and> map (current_fitnesses st') [0, 1, 2, 3] = [1, 0, 1, 1]
         \<and> map (population st') [0, 1, 2, 3] = [0, 0, 0, 0]"
proof -
  define crossed where "crossed = write_children cfg_cubic (population st_unranked) 8 0 0 1
                     (copy_fittest cfg_cubic (population st_unranked) (newPopulation st_unranked))"
  define cf where "cf = fitness cfg_cubic crossed (mem [0, 0]) (current_fitnesses st_unranked)"
  have g: "gen st_unranked = zero_rng" by (simp add: st_unranked_def)
  from generation_quiet [OF small_quiet_examples(1) g crossed_def cf_def,
         of insertion_sort_from_back]
  obtain st' where
    run: "generation insertion_sort_from_back cfg_cubic (mem [0, 0]) st_unranked = Some (Inr st')"
    and p: "population st' = selection insertion_sort_from_back cfg_cubic crossed cf
                               (population st_unranked)"
    and c: "current_fitnesses st' = cf" and b: "bestFitness st' = Some (cf 0)"
    by blast
  note v = unranked_first_generation [OF crossed_def cf_def]
  have "cf 0 = 1" using v(1) by simp
  then show ?thesis using run p c b v by auto
qed

subsection \<open>What main checks before it starts\<close>

lemma init_population_zero_rng:
  "snd (init_population cfg m zero_rng) = zero_rng"
proof -
  define F where "F = (\<lambda>(i::nat) (p :: buffer, g). let (r, g') = rand_call g
                       in (p(i := to_float (to_float
                                    (to_float (to_float (real r) / to_float (real (RAND_MAX cfg)))
                                     * 10) - 5)), g'))"
  have step: "snd (F i (p, zero_rng)) = zero_rng" for i p
    by (simp add: F_def rand_call_zero_rng)
  have "snd (fold F [0..<n] (m, zero_rng)) = zero_rng" for n
  proof (induction n)
    case 0
    show ?case by simp
  next
    case (Suc n)
    obtain p where "fold F [0..<n] (m, zero_rng) = (p, zero_rng)"
      using Suc by (cases "fold F [0..<n] (m, zero_rng)") simp
    then show ?case using step [of n p] by simp
  qed
  then show ?thesis unfolding init_population_def F_def .
qed

lemma ga_loop_one_generation:
  assumes "loop_condition cfg st" and "generation srt cfg points st = Some (Inr st')"
    and "\<not> loop_condition cfg st'"
  shows "ga_loop srt cfg points st = Some (Inr st')"
proof -
  have "ga_loop srt cfg points st' = Some (Inr st')"
    using assms(3) by (subst ga_loop.simps) simp
  then show ?thesis
    using assms(1,2) by (subst ga_loop.simps) simp
qed

text \<open>
  Claim C8, as the code has it. Before it allocates the populations, \<open>main\<close> checks
  the number of arguments and whether the point file could be opened, and nothing else:
  it ends with the usage error exactly when the argument count is not 2, and with the file
  error exactly when the count is 2 and the file cannot be opened. No value of the
  configuration is looked at.
\<close>

theorem only_bad_invocations_rejected:
  "(startup n f = Inr pts \<longleftrightarrow> n = 2 \<and> f = Some pts)
   \<and> (main srt cfg n f m1 m2 m3 g = Some UsageError \<longleftrightarrow> n \<noteq> 2)
   \<and> (main srt cfg n f m1 m2 m3 g = Some FileError \<longleftrightarrow> n = 2 \<and> f = None)"
proof -
  have s: "startup n f = Inr pts \<longleftrightarrow> n = 2 \<and> f = Some pts"
    by (auto simp: startup_def split: option.splits)
  have run: "main srt cfg n f m1 m2 m3 g \<noteq> Some UsageError
             \<and> main srt cfg n f m1 m2 m3 g \<noteq> Some FileError"
    if "n = 2" "f = Some points" for points
    using that
    by (auto simp: main_def startup_def Let_def split: prod.splits option.splits sum.splits)
  have u: "main srt cfg n f m1 m2 m3 g = Some UsageError" if "n \<noteq> 2"
    using that by (simp add: main_def startup_def)
  have fe: "main srt cfg n f m1 m2 m3 g = Some FileError" if "n = 2" "f = None"
    using that by (simp add: main_def startup_def)
  have a: "main srt cfg n f m1 m2 m3 g = Some UsageError \<longleftrightarrow> n \<noteq> 2"
  proof (cases "n = 2")
    case False
    then show ?thesis using u by simp
  next
    case True
    then show ?thesis using run fe by (cases f) auto
  qed
  have b: "main srt cfg n f m1 m2 m3 g = Some FileError \<longleftrightarrow> n = 2 \<and> f = None"
  proof (cases "n = 2")
    case False
    then show ?thesis using u by simp
  next
    case True
    then show ?thesis using run fe by (cases f) auto
  qed
  show ?thesis using s a b by blast
qed


text \<open>
  With a configuration of no points the program is not rejected: it runs one generation
  and reports the fitness 0.
\<close>

theorem no_points_not_rejected:
  "N_POINTS cfg_no_points = 0
   \<and> (\<exists>sol. main insertion_sort_from_back cfg_no_points 2 (Some (mem []))
               (mem []) (mem []) (mem []) zero_rng
             = Some (Finished \<lparr>solution = sol, best = Some 0, generations = 1\<rparr>))"
proof -
  note q = small_quiet_examples(2)
  obtain p where i: "init_population cfg_no_points (mem []) zero_rng = (p, zero_rng)"
    using init_population_zero_rng [of cfg_no_points "mem []"]
    by (cases "init_population cfg_no_points (mem []) zero_rng") simp
  define st where "st = \<lparr>population = p, newPopulation = mem [], current_fitnesses = mem [],
                          generationNumber = 0, noChangeIter = 0,
                          bestFitness = None, previousBestFitness = None, gen = zero_rng\<rparr>"
  have g: "gen st = zero_rng" by (simp add: st_def)
  from generation_quiet [OF q g refl refl, of insertion_sort_from_back "mem []"]
  obtain st' where
    run: "generation insertion_sort_from_back cfg_no_points (mem []) st = Some (Inr st')"
    and b: "bestFitness st' =
              Some (fitness cfg_no_points
                      (write_children cfg_no_points (population st) 8 0 0 1
                         (copy_fittest cfg_no_points (population st) (newPopulation st)))
                      (mem []) (current_fitnesses st) 0)"
    and n: "generationNumber st' = generationNumber st + 1"
    by blast
  have b0: "bestFitness st' = Some 0"
    unfolding b by (simp add: fitness_eq point_loop_def cfg_no_points_def)
  have n1: "generationNumber st' = 1" using n by (simp add: st_def)
  have c0: "loop_condition cfg_no_points st"
    by (simp add: loop_condition_def st_def cfg_no_points_def)
  have c1: "\<not> loop_condition cfg_no_points st'"
    by (simp add: loop_condition_def n1 cfg_no_points_def)
  have "ga_loop insertion_sort_from_back cfg_no_points (mem []) st = Some (Inr st')"
    using ga_loop_one_generation [OF c0 run c1] .
  then have "main insertion_sort_from_back cfg_no_points 2 (Some (mem []))
               (mem []) (mem []) (mem []) zero_rng
             = Some (Finished \<lparr>solution = map (population st') [0, 1, 2, 3], best = Some 0,
                                generations = 1\<rparr>)"
    by (simp add: main_def startup_def i st_def [symmetric] b0 n1)
  then show ?thesis by (simp add: cfg_no_points_def)
qed

subsection \<open>The MPI driver\<close>

lemma receive_bestFitness:
  "bestFitness_all (receive_from cfg rs i a) = (bestFitness_all a)(i := bestFitness_o (rs ! i))"
  by (simp add: receive_from_def)

lemma receive_time:
  "time_all (receive_from cfg rs i a) = (time_all a)(i := time_o (rs ! i))"
  by (simp add: receive_from_def)

lemma receive_genNumber:
  "genNumber_all (receive_from cfg rs i a) = (genNumber_all a)(i := genNumber_o (rs ! i))"
  by (simp add: receive_from_def)

lemma receive_solution:
  "solution_all (receive_from cfg rs i a) x =
     (if i * INDIVIDUAL_LEN cfg \<le> x \<and> x < i * INDIVIDUAL_LEN cfg + INDIVIDUAL_LEN cfg
      then solution_o (rs ! i) ! (x - i * INDIVIDUAL_LEN cfg) else solution_all a x)"
  by (simp add: receive_from_def fold_upd_block)

lemma receive_fold_bestFitness:
  "bestFitness_all (fold (receive_from cfg rs) [Suc 0..<n] a) i =
     (if Suc 0 \<le> i \<and> i < n then bestFitness_o (rs ! i) else bestFitness_all a i)"
proof (induction n)
  case 0
  show ?case by simp
next
  case (Suc n)
  show ?case
  proof (cases "n = 0")
    case True
    then show ?thesis by simp
  next
    case False
    then show ?thesis by (auto simp: receive_bestFitness Suc)
  qed
qed

lemma receive_fold_time:
  "time_all (fold (receive_from cfg rs) [Suc 0..<n] a) i =
     (if Suc 0 \<le> i \<and> i < n then time_o (rs ! i) else time_all a i)"
proof (induction n)
  case 0
  show ?case by simp
next
  case (Suc n)
  show ?case
  proof (cases "n = 0")
    case True
    then show ?thesis by simp
  next
    case False
    then show ?thesis by (auto simp: receive_time Suc)
  qed
qed

lemma receive_fold_genNumber:
  "genNumber_all (fold (receive_from cfg rs) [Suc 0..<n] a) i =
     (if Suc 0 \<le> i \<and> i < n then genNumber_o (rs ! i) else genNumber_all a i)"
proof (induction n)
  case 0
  show ?case by simp
next
  case (Suc n)
  show ?case
  proof (cases "n = 0")
    case True
    then show ?thesis by simp
  next
    case False
    then show ?thesis by (auto simp: receive_genNumber Suc)
  qed
qed

lemma receive_fold_solution:
  "solution_all (fold (receive_from cfg rs) [Suc 0..<n] a) x =
     (if INDIVIDUAL_LEN cfg \<le> x \<and> x < n * INDIVIDUAL_LEN cfg
      then solution_o (rs ! (x div INDIVIDUAL_LEN cfg)) ! (x mod INDIVIDUAL_LEN cfg)
      else solution_all a x)"
proof (induction n)
  case 0
  show ?case by simp
next
  case (Suc n)
  show ?case
  proof (cases "n = 0")
    case True
    then show ?thesis by simp
  next
    case False
    then have le: "INDIVIDUAL_LEN cfg \<le> n * INDIVIDUAL_LEN cfg" by simp
    show ?thesis
    proof (cases "n * INDIVIDUAL_LEN cfg \<le> x \<and> x < n * INDIVIDUAL_LEN cfg + INDIVIDUAL_LEN cfg")
      case True
      then have "INDIVIDUAL_LEN cfg \<le> x" using le by linarith
      with True show ?thesis
        using \<open>n \<noteq> 0\<close> block_div_mod [of n "INDIVIDUAL_LEN cfg" x]
        by (simp add: receive_solution)
    next
      case nb: False
      have "solution_all (fold (receive_from cfg rs) [Suc 0..<Suc n] a) x =
            solution_all (fold (receive_from cfg rs) [Suc 0..<n] a) x"
        using \<open>n \<noteq> 0\<close> nb by (auto simp: receive_solution)
      then show ?thesis using nb le by (auto simp: Suc)
    qed
  qed
qed


lemma findMinimum_fold:
  fixes a :: "nat \<Rightarrow> real"
  assumes "0 < n"
  shows "\<exists>idx. fold (\<lambda>i (mn, minIdx). if a i < mn then (a i, i) else (mn, minIdx)) [Suc 0..<n] (a 0, 0)
               = (a idx, idx)
             \<and> idx < n \<and> (\<forall>j<n. a idx \<le> a j) \<and> (\<forall>j<idx. a idx < a j)"
  using assms
proof (induction n)
  case 0
  then show ?case by simp
next
  case (Suc n)
  show ?case
  proof (cases "n = 0")
    case True
    then show ?thesis by simp
  next
    case False
    then have pos: "0 < n" by simp
    from Suc.IH [OF pos] obtain idx where
      f: "fold (\<lambda>i (mn, minIdx). if a i < mn then (a i, i) else (mn, minIdx)) [Suc 0..<n] (a 0, 0)
            = (a idx, idx)"
      and lt: "idx < n" and mn: "\<forall>j<n. a idx \<le> a j" and fst: "\<forall>j<idx. a idx < a j"
      by blast
    have upt: "[Suc 0..<Suc n] = [Suc 0..<n] @ [n]" using pos by simp
    show ?thesis
    proof (cases "a n < a idx")
      case True
      have "\<forall>j<Suc n. a n \<le> a j" using True mn by (auto simp: less_Suc_eq intro: order.trans less_imp_le)
      moreover have "\<forall>j<n. a n < a j" using True mn by (auto intro: less_le_trans)
      ultimately show ?thesis using True f upt by (intro exI [of _ n]) simp
    next
      case False
      then have "\<forall>j<Suc n. a idx \<le> a j" using mn by (auto simp: less_Suc_eq)
      then show ?thesis using False f lt fst upt by (intro exI [of _ idx]) simp
    qed
  qed
qed

lemma findMinimum_least:
  fixes a :: "nat \<Rightarrow> real"
  assumes "0 < n"
  shows "findMinimum a n < n \<and> (\<forall>j<n. a (findMinimum a n) \<le> a j)
         \<and> (\<forall>j<findMinimum a n. a (findMinimum a n) < a j)"
  using findMinimum_fold [OF assms, of a] unfolding findMinimum_def by auto

lemma gather_fields:
  assumes "i < n"
  shows "bestFitness_all (gather cfg n rs a) i = bestFitness_o (rs ! i)"
    and "time_all (gather cfg n rs a) i = time_o (rs ! i)"
    and "genNumber_all (gather cfg n rs a) i = genNumber_o (rs ! i)"
  using assms
  by (auto simp: gather_def copy_own_def receive_fold_bestFitness receive_fold_time
        receive_fold_genNumber)

lemma gather_solution:
  assumes "i < n" "k < INDIVIDUAL_LEN cfg"
  shows "solution_all (gather cfg n rs a) (i * INDIVIDUAL_LEN cfg + k) = solution_o (rs ! i) ! k"
proof (cases "i = 0")
  case True
  then show ?thesis using assms
    by (simp add: gather_def copy_own_def fold_upd_upt)
next
  case False
  then obtain i' where "i = Suc i'" by (cases i) auto
  then have "INDIVIDUAL_LEN cfg \<le> i * INDIVIDUAL_LEN cfg + k" by simp
  moreover have "i * INDIVIDUAL_LEN cfg + k < n * INDIVIDUAL_LEN cfg"
  proof -
    have "i * INDIVIDUAL_LEN cfg + k < Suc i * INDIVIDUAL_LEN cfg" using assms by simp
    also have "\<dots> \<le> n * INDIVIDUAL_LEN cfg" using assms by (intro mult_le_mono1) simp
    finally show ?thesis .
  qed
  ultimately show ?thesis using assms
    by (simp add: gather_def copy_own_def receive_fold_solution fold_upd_upt)
qed

lemma global_result_eq:
  assumes "0 < n" "n = length rs" "\<forall>r\<in>set rs. length (solution_o r) = INDIVIDUAL_LEN cfg"
  shows "global_result cfg n (gather cfg n rs a) =
           (findMinimum (bestFitness_all (gather cfg n rs a)) n,
            rs ! findMinimum (bestFitness_all (gather cfg n rs a)) n)"
proof -
  let ?b = "findMinimum (bestFitness_all (gather cfg n rs a)) n"
  have b: "?b < n" using findMinimum_least [OF assms(1)] by blast
  then have len: "length (solution_o (rs ! ?b)) = INDIVIDUAL_LEN cfg"
    using assms by simp
  have "map (\<lambda>i. solution_all (gather cfg n rs a) (?b * INDIVIDUAL_LEN cfg + i))
          [0..<INDIVIDUAL_LEN cfg] = solution_o (rs ! ?b)"
    using len b by (intro nth_equalityI) (simp_all add: gather_solution)
  then show ?thesis
    using b by (simp add: global_result_def Let_def gather_fields)
qed


text \<open>
  Claim C9. Once the master has gathered the results of all processes, the result it
  reports is the one with the least fitness among all of them, its own included, and
  among several with that least fitness the one of the lowest rank.
\<close>

theorem master_reports_minimum_of_lowest_rank:
  assumes "mpi_argc env = 2" and "init_ok env" and "exchange_ok env" and "finalize_ok env"
    and "commSize env \<le> 4" and "0 < commSize env"
    and "commSize env = length (all_results env)"
    and "points_file env = Some pts" and "commRank env = 0"
    and "\<forall>r\<in>set (all_results env). length (solution_o r) = INDIVIDUAL_LEN cfg"
  shows "\<exists>b<commSize env.
           mpi_main cfg env =
             ([MpiInit, ReadData, ComputeGA, PrintOwn (all_results env ! 0), Exchange,
               PrintGlobal b (all_results env ! b), MpiFinalize], Return_0)
           \<and> (\<forall>j<commSize env.
                 bestFitness_o (all_results env ! b) \<le> bestFitness_o (all_results env ! j))
           \<and> (\<forall>j<b. bestFitness_o (all_results env ! b) < bestFitness_o (all_results env ! j))"
proof -
  let ?n = "commSize env" and ?rs = "all_results env"
  let ?g = "gather cfg ?n ?rs (fresh_arrays env)"
  let ?b = "findMinimum (bestFitness_all ?g) ?n"
  have least: "?b < ?n" "\<forall>j<?n. bestFitness_all ?g ?b \<le> bestFitness_all ?g j"
    "\<forall>j<?b. bestFitness_all ?g ?b < bestFitness_all ?g j"
    using findMinimum_least [OF assms(6), of "bestFitness_all ?g"] by blast+
  have gr: "global_result cfg ?n ?g = (?b, ?rs ! ?b)"
    using global_result_eq [OF assms(6) assms(7) assms(10)] .
  have run: "mpi_main cfg env =
             ([MpiInit, ReadData, ComputeGA, PrintOwn (?rs ! 0), Exchange,
               PrintGlobal ?b (?rs ! ?b), MpiFinalize], Return_0)"
    using assms(1-5,8,9) by (simp add: mpi_main_def gr finalize_def)
  have le: "\<forall>j<?n. bestFitness_o (?rs ! ?b) \<le> bestFitness_o (?rs ! j)"
    using least(1,2) by (simp add: gather_fields)
  have lt: "\<forall>j<?b. bestFitness_o (?rs ! ?b) < bestFitness_o (?rs ! j)"
  proof (intro allI impI)
    fix j assume "j < ?b"
    then have "j < ?n" using least(1) by simp
    then show "bestFitness_o (?rs ! ?b) < bestFitness_o (?rs ! j)"
      using least(1,3) \<open>j < ?b\<close> by (simp add: gather_fields)
  qed
  show ?thesis using least(1) run le lt by blast
qed

text \<open>With the fitness values 0.5, 0.1 and 0.9 the process of rank 1 wins.\<close>

theorem master_reports_minimum_of_lowest_rank_witness:
  "mpi_main cfg_cubic master_of_three =
     ([MpiInit, ReadData, ComputeGA, PrintOwn (three_results ! 0), Exchange,
       PrintGlobal 1 \<lparr>solution_o = [5, 6, 7, 8], bestFitness_o = 0.1, time_o = 3,
                      genNumber_o = 20\<rparr>,
       MpiFinalize], Return_0)"
proof -
  have h: "\<forall>r\<in>set (all_results master_of_three).
             length (solution_o r) = INDIVIDUAL_LEN cfg_cubic"
    by (simp add: master_of_three_def three_results_def cfg_cubic_def)
  from master_reports_minimum_of_lowest_rank
         [of master_of_three "mem [0, 0]" cfg_cubic, OF _ _ _ _ _ _ _ _ _ h]
  obtain b where b: "b < 3"
    and run: "mpi_main cfg_cubic master_of_three =
       ([MpiInit, ReadData, ComputeGA, PrintOwn (three_results ! 0), Exchange,
         PrintGlobal b (three_results ! b), MpiFinalize], Return_0)"
    and le: "\<forall>j<3. bestFitness_o (three_results ! b) \<le> bestFitness_o (three_results ! j)"
    by (auto simp: master_of_three_def three_results_def)
  from le have le1: "bestFitness_o (three_results ! b) \<le> bestFitness_o (three_results ! 1)"
    by simp
  from b have "b = 0 \<or> b = 1 \<or> b = 2" by auto
  with le1 have "b = 1" by (auto simp: three_results_def)
  with run show ?thesis by (simp add: three_results_def)
qed

text \<open>
  Claim C10. Started with more than four processes, the MPI driver prints an error and
  returns before it reads the point file and before any genetic algorithm runs.
\<close>

theorem more_than_four_processes_refused:
  assumes "mpi_argc env = 2" and "init_ok env" and "4 < commSize env"
  shows "mpi_main cfg env = ([MpiInit, PrintTooManyProcesses], Return_minus_1)
         \<and> ReadData \<notin> set (fst (mpi_main cfg env))
         \<and> ComputeGA \<notin> set (fst (mpi_main cfg env))"
  using assms by (simp add: mpi_main_def)

theorem more_than_four_processes_refused_witness:
  "mpi_main cfg_cubic one_of_five = ([MpiInit, PrintTooManyProcesses], Return_minus_1)"
proof -
  have "mpi_argc one_of_five = 2" "init_ok one_of_five" "4 < commSize one_of_five"
    by (simp_all add: one_of_five_def)
  from more_than_four_processes_refused [OF this, of cfg_cubic] show ?thesis by simp
qed

end
